theory Spec2Isabelle
  imports Main
begin

section \<open>Strings\<close>

text \<open>
  JavaScript strings are modelled as \<^typ>\<open>string\<close>, one \<^typ>\<open>char\<close> per code unit
  (code units below 256).  The functions of this section are the \<open>String.prototype\<close>
  methods the server calls.
\<close>

text \<open>\<open>s.startsWith(p)\<close>\<close>

fun startsWith :: "string \<Rightarrow> string \<Rightarrow> bool" where
  "startsWith s [] = True"
| "startsWith [] (p # ps) = False"
| "startsWith (c # cs) (p # ps) = (c = p \<and> startsWith cs ps)"

text \<open>
  The first occurrence of \<open>pat\<close> in a string: the text before it and the text after it.
  \<open>pre\<close> collects, reversed, the characters already passed.
\<close>

fun searchFrom :: "string \<Rightarrow> string \<Rightarrow> string \<Rightarrow> (string \<times> string) option" where
  "searchFrom pat pre [] = (if pat = [] then Some (rev pre, []) else None)"
| "searchFrom pat pre (c # cs) =
     (if startsWith (c # cs) pat then Some (rev pre, drop (length pat) (c # cs))
      else searchFrom pat (c # pre) cs)"

text \<open>\<open>s.includes(pat)\<close>\<close>

definition includesStr :: "string \<Rightarrow> string \<Rightarrow> bool" where
  "includesStr s pat = (searchFrom pat [] s \<noteq> None)"

text \<open>
  The replacement text of \<open>s.replace(pat, template)\<close> for a string pattern (ECMAScript
  GetSubstitution with no captures): \<open>$$\<close> is a dollar sign, \<open>$&\<close> the matched text,
  \<open>$`\<close> the text before the match, \<open>$'\<close> the text after it; every other character,
  a dollar sign followed by a digit included, stands for itself.
\<close>

fun getSubstitution :: "string \<Rightarrow> string \<Rightarrow> string \<Rightarrow> string \<Rightarrow> string" where
  "getSubstitution matched preceding following [] = []"
| "getSubstitution matched preceding following [c] = [c]"
| "getSubstitution matched preceding following (c # d # r) =
     (if c = CHR ''$'' \<and> d = CHR ''$'' then CHR ''$'' # getSubstitution matched preceding following r
      else if c = CHR ''$'' \<and> d = CHR ''&'' then matched @ getSubstitution matched preceding following r
      else if c = CHR ''$'' \<and> d = CHR 0x60 then preceding @ getSubstitution matched preceding following r
      else if c = CHR ''$'' \<and> d = CHR 0x27 then following @ getSubstitution matched preceding following r
      else c # getSubstitution matched preceding following (d # r))"

text \<open>\<open>s.replace(pat, template)\<close> with a string pattern: the first occurrence only.\<close>

definition replace :: "string \<Rightarrow> string \<Rightarrow> string \<Rightarrow> string" where
  "replace s pat template =
     (case searchFrom pat [] s of
        None \<Rightarrow> s
      | Some (preceding, following) \<Rightarrow> preceding @ getSubstitution pat preceding following template @ following)"

text \<open>\<open>s.split(sep)\<close> for a one-character separator: never empty.\<close>

fun split :: "char \<Rightarrow> string \<Rightarrow> string list" where
  "split sep [] = [[]]"
| "split sep (c # cs) =
     (if c = sep then [] # split sep cs
      else (case split sep cs of [] \<Rightarrow> [[c]] | x # xs \<Rightarrow> (c # x) # xs))"

text \<open>\<open>xs.join(sep)\<close> for a one-character separator.\<close>

fun join :: "char \<Rightarrow> string list \<Rightarrow> string" where
  "join sep [] = []"
| "join sep [x] = x"
| "join sep (x # y # ys) = x @ sep # join sep (y # ys)"

text \<open>
  White space as \<open>trim\<close>, \<open>trimStart\<close> and the regular expression class \<open>\s\<close> see it:
  tab, line feed, vertical tab, form feed, carriage return, space and no-break space.
\<close>

definition isWhiteSpace :: "char \<Rightarrow> bool" where
  "isWhiteSpace c = (c \<in> set [CHR 0x09, CHR 0x0A, CHR 0x0B, CHR 0x0C, CHR 0x0D, CHR 0x20, CHR 0xA0])"

definition trimStart :: "string \<Rightarrow> string" where
  "trimStart s = dropWhile isWhiteSpace s"

definition trim :: "string \<Rightarrow> string" where
  "trim s = rev (dropWhile isWhiteSpace (rev (dropWhile isWhiteSpace s)))"

text \<open>\<open>line.match(/^\s*/)?.[0] || ''\<close>: the leading white space of a line.\<close>

definition leadingWhitespace :: "string \<Rightarrow> string" where
  "leadingWhitespace s = takeWhile isWhiteSpace s"

text \<open>\<open>s.toLowerCase()\<close>: the letters A to Z and the upper-case letters of Latin-1.\<close>

definition lowerChar :: "char \<Rightarrow> char" where
  "lowerChar c =
     (let n = (of_char c :: nat)
      in if (65 \<le> n \<and> n \<le> 90) \<or> (192 \<le> n \<and> n \<le> 222 \<and> n \<noteq> 215) then char_of (n + 32) else c)"

definition toLowerCase :: "string \<Rightarrow> string" where
  "toLowerCase s = map lowerChar s"

section \<open>Node's \<open>path\<close> module (POSIX)\<close>

text \<open>
  The server is written against Node's \<open>path\<close> module.  This is its POSIX flavour, on
  path segments: \<open>normalizeSegs\<close> is \<open>normalizeString\<close>, which drops empty and \<open>.\<close>
  segments and lets \<open>..\<close> remove the segment before it; above the root \<open>..\<close> is kept
  only in a relative path (\<open>allowAboveRoot\<close>).  \<open>acc\<close> is the result so far, reversed.
\<close>

fun normalizeSegs :: "bool \<Rightarrow> string list \<Rightarrow> string list \<Rightarrow> string list" where
  "normalizeSegs allowAboveRoot acc [] = rev acc"
| "normalizeSegs allowAboveRoot acc (s # ss) =
     (if s = [] \<or> s = ''.'' then normalizeSegs allowAboveRoot acc ss
      else if s = ''..'' then
        (case acc of
           t # ts \<Rightarrow>
             if t \<noteq> ''..'' then normalizeSegs allowAboveRoot ts ss
             else if allowAboveRoot then normalizeSegs allowAboveRoot (''..'' # acc) ss
             else normalizeSegs allowAboveRoot acc ss
         | [] \<Rightarrow>
             if allowAboveRoot then normalizeSegs allowAboveRoot [''..''] ss
             else normalizeSegs allowAboveRoot [] ss)
      else normalizeSegs allowAboveRoot (s # acc) ss)"

definition pathIsAbsolute :: "string \<Rightarrow> bool" where
  "pathIsAbsolute p = (p \<noteq> [] \<and> hd p = CHR ''/'')"

text \<open>\<open>path.normalize(p)\<close>: a trailing separator is kept.\<close>

definition pathNormalize :: "string \<Rightarrow> string" where
  "pathNormalize p =
     (if p = [] then ''.''
      else
        let segs = normalizeSegs (\<not> pathIsAbsolute p) [] (split CHR ''/'' p);
            trailingSeparator = (last p = CHR ''/'')
        in if segs = [] then (if pathIsAbsolute p then ''/'' else if trailingSeparator then ''./'' else ''.'')
           else (if pathIsAbsolute p then ''/'' else [])
                @ join CHR ''/'' segs @ (if trailingSeparator then ''/'' else []))"

text \<open>
  \<open>path.resolve(...paths)\<close>: the arguments are taken from the right until an absolute one
  is met, the working directory last; empty arguments are skipped.  \<open>resolveArgs\<close> gets
  the arguments rightmost first.
\<close>

fun resolveArgs :: "string list \<Rightarrow> string \<Rightarrow> string" where
  "resolveArgs [] resolved = resolved"
| "resolveArgs (p # ps) resolved =
     (if p = [] then resolveArgs ps resolved
      else if pathIsAbsolute p then p @ ''/'' @ resolved
      else resolveArgs ps (p @ ''/'' @ resolved))"

definition pathResolve :: "string \<Rightarrow> string list \<Rightarrow> string" where
  "pathResolve cwd paths =
     (let resolved = resolveArgs (rev (cwd # paths)) [];
          segs = normalizeSegs (\<not> pathIsAbsolute resolved) [] (split CHR ''/'' resolved)
      in if pathIsAbsolute resolved then ''/'' @ join CHR ''/'' segs
         else if segs = [] then ''.'' else join CHR ''/'' segs)"

text \<open>\<open>path.join(...paths)\<close>: the non-empty arguments, joined and normalized.\<close>

definition pathJoin :: "string list \<Rightarrow> string" where
  "pathJoin paths =
     (let parts = filter (\<lambda>p. p \<noteq> []) paths
      in if parts = [] then ''.'' else pathNormalize (join CHR ''/'' parts))"

text \<open>
  \<open>path.dirname(p)\<close>: scanning from the end and never looking at the first character,
  skip the trailing separators, then the last segment; the result ends before the
  separator found there.
\<close>

definition pathDirname :: "string \<Rightarrow> string" where
  "pathDirname p =
     (if p = [] then ''.''
      else
        let r = dropWhile (\<lambda>c. c \<noteq> CHR ''/'') (dropWhile (\<lambda>c. c = CHR ''/'') (rev (tl p)))
        in if r = [] then (if pathIsAbsolute p then ''/'' else ''.'')
           else if pathIsAbsolute p \<and> length r = 1 then ''//''
           else hd p # rev (tl r))"


definition segments :: "string \<Rightarrow> string list" where
  "segments p = filter (\<lambda>s. s \<noteq> []) (split CHR ''/'' p)"


section \<open>Path validation\<close>

text \<open>
  What the process sees of its surroundings: the home directory, the working directory,
  the command-line arguments (the allowed directories as given) and \<open>fs.realpath\<close>, which
  is \<open>None\<close> where it throws.
\<close>

record env =
  homedir :: string
  cwd :: string
  args :: "string list"
  realpath :: "string \<Rightarrow> string option"

text \<open>
  The errors thrown, one constructor per \<open>throw\<close> of the source with the text it
  interpolates, and \<open>FsError\<close> for an exception of the \<open>fs\<close> module.
\<close>

datatype error =
    AccessDeniedPath string "string list"
  | AccessDeniedSymlink
  | AccessDeniedParent
  | ParentMissing string
  | EditNotFound string
  | FsError

text \<open>The three errors whose message starts with "Access denied".\<close>

fun isAccessDenied :: "error \<Rightarrow> bool" where
  "isAccessDenied (AccessDeniedPath p dirs) = True"
| "isAccessDenied AccessDeniedSymlink = True"
| "isAccessDenied AccessDeniedParent = True"
| "isAccessDenied e = False"

definition normalizePath :: "string \<Rightarrow> string" where
  "normalizePath p = toLowerCase (pathNormalize p)"

definition expandHome :: "env \<Rightarrow> string \<Rightarrow> string" where
  "expandHome e filepath =
     (if startsWith filepath ''~/'' \<or> filepath = ''~''
      then pathJoin [homedir e, drop 1 filepath]
      else filepath)"

definition allowedDirectories :: "env \<Rightarrow> string list" where
  "allowedDirectories e = map (\<lambda>dir. normalizePath (pathResolve (cwd e) [expandHome e dir])) (args e)"

text \<open>\<open>allowedDirectories.some(dir => p.startsWith(dir))\<close>\<close>

definition isAllowed :: "env \<Rightarrow> string \<Rightarrow> bool" where
  "isAllowed e p = list_ex (\<lambda>dir. startsWith p dir) (allowedDirectories e)"

text \<open>The absolute form of the requested path.\<close>

definition absolutePath :: "env \<Rightarrow> string \<Rightarrow> string" where
  "absolutePath e requestedPath =
     (let expandedPath = expandHome e requestedPath
      in if pathIsAbsolute expandedPath then pathResolve (cwd e) [expandedPath]
         else pathResolve (cwd e) [cwd e, expandedPath])"

text \<open>The body of the outer \<open>try\<close>: the real path of the target, checked.\<close>

definition checkRealPath :: "env \<Rightarrow> string \<Rightarrow> error + string" where
  "checkRealPath e absolute =
     (case realpath e absolute of
        None \<Rightarrow> Inl FsError
      | Some realPath \<Rightarrow>
          if \<not> isAllowed e (normalizePath realPath) then Inl AccessDeniedSymlink
          else Inr realPath)"

text \<open>The body of the inner \<open>try\<close>: the real path of the parent directory, checked.\<close>

definition checkParent :: "env \<Rightarrow> string \<Rightarrow> string \<Rightarrow> error + string" where
  "checkParent e parentDir absolute =
     (case realpath e parentDir of
        None \<Rightarrow> Inl FsError
      | Some realParentPath \<Rightarrow>
          if \<not> isAllowed e (normalizePath realParentPath) then Inl AccessDeniedParent
          else Inr absolute)"

text \<open>
  \<open>validatePath\<close>.  Each \<open>catch\<close> takes every exception of its \<open>try\<close> block, the ones
  the block throws itself included.
\<close>

definition validatePath :: "env \<Rightarrow> string \<Rightarrow> error + string" where
  "validatePath e requestedPath =
     (let absolute = absolutePath e requestedPath;
          normalizedRequested = normalizePath absolute
      in if \<not> isAllowed e normalizedRequested
         then Inl (AccessDeniedPath absolute (allowedDirectories e))
         else
           (case checkRealPath e absolute of
              Inr realPath \<Rightarrow> Inr realPath
            | Inl error \<Rightarrow>
                (let parentDir = pathDirname absolute
                 in case checkParent e parentDir absolute of
                      Inr p \<Rightarrow> Inr p
                    | Inl _ \<Rightarrow> Inl (ParentMissing parentDir))))"

section \<open>Editing files\<close>

record edit =
  oldText :: string
  newText :: string

text \<open>\<open>text.replace(/\r\n/g, '\n')\<close>\<close>

fun normalizeLineEndings :: "string \<Rightarrow> string" where
  "normalizeLineEndings [] = []"
| "normalizeLineEndings [c] = [c]"
| "normalizeLineEndings (c # d # r) =
     (if c = CHR 0x0D \<and> d = CHR 0x0A then CHR 0x0A # normalizeLineEndings r
      else c # normalizeLineEndings (d # r))"

text \<open>\<open>xs.slice(i, j)\<close> and \<open>xs.splice(i, n, ...ys)\<close> for indices in range.\<close>

definition slice :: "'a list \<Rightarrow> nat \<Rightarrow> nat \<Rightarrow> 'a list" where
  "slice xs i j = take (j - i) (drop i xs)"

definition splice :: "'a list \<Rightarrow> nat \<Rightarrow> nat \<Rightarrow> 'a list \<Rightarrow> 'a list" where
  "splice xs i n ys = take i xs @ ys @ drop (i + n) xs"

text \<open>
  The test of one window: every line of \<open>oldLines\<close> equals the line of the window at
  the same index, both trimmed.
\<close>

definition isMatch :: "string list \<Rightarrow> string list \<Rightarrow> bool" where
  "isMatch oldLines potentialMatch =
     list_all (\<lambda>j. trim (oldLines ! j) = trim (potentialMatch ! j)) [0..<length oldLines]"

text \<open>
  The lines that replace a matched window: the first takes the indentation of the
  window's first line; a later one, when it and the old line at its index are both
  indented, is indented by the window's indentation and the difference of the two
  widths, never less than none.
\<close>

definition replacementLine :: "string list \<Rightarrow> string \<Rightarrow> nat \<times> string \<Rightarrow> string" where
  "replacementLine oldLines originalIndent jl =
     (case jl of (j, line) \<Rightarrow>
        if j = 0 then originalIndent @ trimStart line
        else
          let oldIndent = (if j < length oldLines then leadingWhitespace (oldLines ! j) else []);
              newIndent = leadingWhitespace line
          in if oldIndent \<noteq> [] \<and> newIndent \<noteq> [] then
               let relativeIndent = int (length newIndent) - int (length oldIndent)
               in originalIndent @ replicate (nat (max 0 relativeIndent)) CHR '' '' @ trimStart line
             else line)"

definition replacementLines :: "string list \<Rightarrow> string \<Rightarrow> string \<Rightarrow> string list" where
  "replacementLines oldLines originalIndent normalizedNew =
     map (replacementLine oldLines originalIndent) (enumerate 0 (split CHR 0x0A normalizedNew))"

text \<open>
  The loop over the windows, from index \<open>i\<close>: the content with the first matching
  window replaced, or \<open>None\<close> when the loop ends with \<open>matchFound\<close> still false.
\<close>

function fuzzyLoop :: "string list \<Rightarrow> string list \<Rightarrow> string \<Rightarrow> nat \<Rightarrow> string option" where
  "fuzzyLoop oldLines contentLines normalizedNew i =
     (if i + length oldLines \<le> length contentLines then
        (if isMatch oldLines (slice contentLines i (i + length oldLines)) then
           Some (join CHR 0x0A
                   (splice contentLines i (length oldLines)
                      (replacementLines oldLines (leadingWhitespace (contentLines ! i)) normalizedNew)))
         else fuzzyLoop oldLines contentLines normalizedNew (i + 1))
      else None)"
  by pat_completeness auto
termination
  by (relation "measure (\<lambda>(oldLines, contentLines, normalizedNew, i). Suc (length contentLines) - i)") auto

text \<open>One pass of the loop over the edits: the new content, or \<open>None\<close> where it throws.\<close>

definition applyEdit :: "string \<Rightarrow> edit \<Rightarrow> string option" where
  "applyEdit modifiedContent e =
     (let normalizedOld = normalizeLineEndings (oldText e);
          normalizedNew = normalizeLineEndings (newText e)
      in if includesStr modifiedContent normalizedOld
         then Some (replace modifiedContent normalizedOld normalizedNew)
         else fuzzyLoop (split CHR 0x0A normalizedOld) (split CHR 0x0A modifiedContent) normalizedNew 0)"

fun applyEdits :: "string \<Rightarrow> edit list \<Rightarrow> error + string" where
  "applyEdits modifiedContent [] = Inr modifiedContent"
| "applyEdits modifiedContent (e # es) =
     (case applyEdit modifiedContent e of
        None \<Rightarrow> Inl (EditNotFound (oldText e))
      | Some modifiedContent' \<Rightarrow> applyEdits modifiedContent' es)"

text \<open>
  \<open>createTwoFilesPatch\<close> belongs to the \<open>diff\<close> package; the model takes it as a
  parameter, with its six arguments.
\<close>

type_synonym patcher = "string \<Rightarrow> string \<Rightarrow> string \<Rightarrow> string \<Rightarrow> string \<Rightarrow> string \<Rightarrow> string"

definition createUnifiedDiff :: "patcher \<Rightarrow> string \<Rightarrow> string \<Rightarrow> string \<Rightarrow> string" where
  "createUnifiedDiff createTwoFilesPatch originalContent newContent filepath =
     createTwoFilesPatch filepath filepath
       (normalizeLineEndings originalContent) (normalizeLineEndings newContent)
       ''original'' ''modified''"

lemma startsWith_length: "startsWith s p \<Longrightarrow> length p \<le> length s"
  by (induction s p rule: startsWith.induct) auto

lemma searchFrom_length: "searchFrom pat pre s = Some r \<Longrightarrow> length pat \<le> length s"
proof (induction s arbitrary: pre)
  case Nil
  then show ?case by (simp split: if_splits)
next
  case (Cons c cs)
  show ?case
  proof (cases "startsWith (c # cs) pat")
    case True
    then show ?thesis by (rule startsWith_length)
  next
    case False
    with Cons.prems have "searchFrom pat (c # pre) cs = Some r" by simp
    then have "length pat \<le> length cs" by (rule Cons.IH)
    then show ?thesis by simp
  qed
qed

lemma includesStr_length: "includesStr s pat \<Longrightarrow> length pat \<le> length s"
  by (auto simp: includesStr_def dest: searchFrom_length)

text \<open>The length of the fence: the first run of backticks, from three, that the diff does not hold.\<close>

function countBackticks :: "string \<Rightarrow> nat \<Rightarrow> nat" where
  "countBackticks diff numBackticks =
     (if includesStr diff (replicate numBackticks CHR 0x60)
      then countBackticks diff (numBackticks + 1)
      else numBackticks)"
  by pat_completeness auto
termination
proof (relation "measure (\<lambda>(diff, numBackticks). Suc (length diff) - numBackticks)")
  show "wf (measure (\<lambda>(diff, numBackticks). Suc (length diff) - numBackticks))"
    by simp
next
  fix diff :: string and numBackticks :: nat
  assume "includesStr diff (replicate numBackticks CHR 0x60)"
  then have "numBackticks \<le> length diff"
    using includesStr_length by fastforce
  then show "((diff, numBackticks + 1), (diff, numBackticks))
      \<in> measure (\<lambda>(diff, numBackticks). Suc (length diff) - numBackticks)"
    by simp
qed

definition formatDiff :: "string \<Rightarrow> string" where
  "formatDiff diff =
     (let numBackticks = countBackticks diff 3
      in replicate numBackticks CHR 0x60 @ ''diff'' @ [CHR 0x0A] @ diff
         @ replicate numBackticks CHR 0x60 @ [CHR 0x0A, CHR 0x0A])"

text \<open>
  The files on disk, by path.  \<open>fs.readFile\<close> throws where there is no file;
  \<open>fs.writeFile\<close> stores the content.  \<open>applyFileEdits\<close> returns the files as it
  leaves them and its result.
\<close>

type_synonym store = "string \<rightharpoonup> string"

definition applyFileEdits ::
    "patcher \<Rightarrow> store \<Rightarrow> string \<Rightarrow> edit list \<Rightarrow> bool \<Rightarrow> store \<times> (error + string)" where
  "applyFileEdits createTwoFilesPatch fs filePath edits dryRun =
     (case fs filePath of
        None \<Rightarrow> (fs, Inl FsError)
      | Some raw \<Rightarrow>
          let content = normalizeLineEndings raw
          in (case applyEdits content edits of
                Inl err \<Rightarrow> (fs, Inl err)
              | Inr modifiedContent \<Rightarrow>
                  let diff = createUnifiedDiff createTwoFilesPatch content modifiedContent filePath;
                      formattedDiff = formatDiff diff
                  in (if \<not> dryRun then fs(filePath \<mapsto> modifiedContent) else fs, Inr formattedDiff)))"

section \<open>Searching\<close>









section \<open>An allowed directory and its surroundings\<close>

text \<open>
  One allowed directory, \<open>/allowed\<close>.  Beside it lies \<open>/allowed-evil\<close> with a file
  \<open>x\<close>.  Inside it, \<open>link\<close> is a symbolic link to \<open>/etc/passwd\<close> and \<open>sub\<close> one to the
  directory \<open>/outside\<close>; \<open>/tmp/link\<close> is a symbolic link to \<open>/allowed\<close>.  No
  other path exists.
\<close>

definition exampleRealpath :: "string \<Rightarrow> string option" where
  "exampleRealpath p =
     (if p \<in> set [''/'', ''/allowed'', ''/allowed-evil'', ''/allowed-evil/x'', ''/etc'',
                   ''/etc/passwd'', ''/home'', ''/home/user'', ''/outside'', ''/tmp'']
      then Some p
      else if p = ''/allowed/link'' then Some ''/etc/passwd''
      else if p = ''/allowed/sub'' then Some ''/outside''
      else if p = ''/tmp/link'' then Some ''/allowed''
      else None)"

definition exampleEnv :: env where
  "exampleEnv = \<lparr>homedir = ''/home/user'', cwd = ''/home/user'', args = [''/allowed''],
     realpath = exampleRealpath\<rparr>"

text \<open>
  Containment as the specification words it, on whole path segments: the segments of
  the root are the first segments of the path.
\<close>

definition segmentContained :: "string \<Rightarrow> string \<Rightarrow> bool" where
  "segmentContained root p = (take (length (segments root)) (segments p) = segments root)"

text \<open>
  An absolute path lies within an absolute root when it is contained in it on whole
  segments; a path is contained when its comparison form lies within one of the allowed
  directories.
\<close>

definition withinRoot :: "string \<Rightarrow> string \<Rightarrow> bool" where
  "withinRoot root p = (pathIsAbsolute root \<and> pathIsAbsolute p \<and> segmentContained root p)"

definition contained :: "env \<Rightarrow> string \<Rightarrow> bool" where
  "contained e p = list_ex (\<lambda>root. withinRoot root (normalizePath p)) (allowedDirectories e)"

section \<open>Matching, as the specification words it\<close>

text \<open>
  The window of \<open>contentLines\<close> that starts at index \<open>i\<close> matches \<open>oldLines\<close>: it lies
  inside the content and its lines equal those of \<open>oldLines\<close>, both trimmed.
\<close>

definition windowMatches :: "string list \<Rightarrow> string list \<Rightarrow> nat \<Rightarrow> bool" where
  "windowMatches oldLines contentLines i =
     (i + length oldLines \<le> length contentLines
      \<and> list_all (\<lambda>j. trim (oldLines ! j) = trim (contentLines ! (i + j))) [0..<length oldLines])"

text \<open>An edit matches exactly: its old text, line endings normalized, occurs in the content.\<close>

definition matchesExactly :: "string \<Rightarrow> edit \<Rightarrow> bool" where
  "matchesExactly content e = includesStr content (normalizeLineEndings (oldText e))"

text \<open>An edit matches fuzzily: some window of the content's lines matches its old text's lines.\<close>

definition matchesFuzzily :: "string \<Rightarrow> edit \<Rightarrow> bool" where
  "matchesFuzzily content e =
     list_ex (windowMatches (split CHR 0x0A (normalizeLineEndings (oldText e))) (split CHR 0x0A content))
       [0..<Suc (length (split CHR 0x0A content))]"

section \<open>A file and a tree\<close>

text \<open>
  A stand-in for \<open>createTwoFilesPatch\<close>: the two headers, then the old and the new text
  whole.
\<close>

definition examplePatch :: patcher where
  "examplePatch oldFileName newFileName oldStr newStr oldHeader newHeader =
     ''--- '' @ oldFileName @ '' '' @ oldHeader @ [CHR 0x0A]
     @ ''+++ '' @ newFileName @ '' '' @ newHeader @ [CHR 0x0A]
     @ ''-'' @ oldStr @ [CHR 0x0A] @ ''+'' @ newStr @ [CHR 0x0A]"

text \<open>One file on disk.\<close>

definition exampleStore :: store where
  "exampleStore = [''/allowed/f'' \<mapsto> ''  return x;'']"



section \<open>Path validation: results\<close>

lemma exampleEnv_allowedDirectories: "allowedDirectories exampleEnv = [''/allowed'']"
  by code_simp

text \<open>A path that no allowed directory is a string prefix of is refused.\<close>

lemma validatePath_not_prefixed:
  "\<not> isAllowed e (normalizePath (absolutePath e requestedPath)) \<Longrightarrow>
   validatePath e requestedPath
     = Inl (AccessDeniedPath (absolutePath e requestedPath) (allowedDirectories e))"
  by (simp add: validatePath_def Let_def)

text \<open>
  The two refusals thrown inside the \<open>try\<close> blocks never leave \<open>validatePath\<close>: its
  errors are the refusal of the first check and the missing parent.
\<close>

lemma validatePath_errors:
  "validatePath e requestedPath = Inl err \<Longrightarrow>
   err = AccessDeniedPath (absolutePath e requestedPath) (allowedDirectories e)
   \<or> err = ParentMissing (pathDirname (absolutePath e requestedPath))"
  by (auto simp: validatePath_def Let_def split: if_splits sum.splits)

text \<open>A validated path is the real path of the request or its absolute form.\<close>

lemma validatePath_results:
  "validatePath e requestedPath = Inr p \<Longrightarrow>
   realpath e (absolutePath e requestedPath) = Some p \<or> p = absolutePath e requestedPath"
  by (auto simp: validatePath_def checkRealPath_def checkParent_def Let_def
      split: if_splits sum.splits option.splits)

text \<open>
  C1.  A path outside every allowed root is to be refused, containment being a matter of
  whole segments.  The code compares strings: with \<open>/allowed\<close> the only root, the
  existing file \<open>/allowed-evil/x\<close>, which is not under \<open>/allowed\<close>, is validated and
  returned.
\<close>

theorem validatePath_admits_sibling:
  "allowedDirectories exampleEnv = [''/allowed'']
   \<and> \<not> segmentContained ''/allowed'' ''/allowed-evil/x''
   \<and> validatePath exampleEnv ''/allowed-evil/x'' = Inr ''/allowed-evil/x''"
  by code_simp

text \<open>
  C2.  A symbolic link inside a root whose target is outside every root is to be refused.
  The code throws for it inside the \<open>try\<close> block whose \<open>catch\<close> then takes the path for
  a new file: \<open>/allowed/link\<close>, a link to \<open>/etc/passwd\<close>, is validated and returned.
\<close>

theorem validatePath_returns_escaping_symlink:
  "realpath exampleEnv ''/allowed/link'' = Some ''/etc/passwd''
   \<and> \<not> isAllowed exampleEnv (normalizePath ''/etc/passwd'')
   \<and> validatePath exampleEnv ''/allowed/link'' = Inr ''/allowed/link''"
  by code_simp

text \<open>
  C3, as stated: a path that does not exist, whose parent exists with a real path
  inside a root, is validated.  It fails at \<open>/tmp/link/new\<close>: the parent \<open>/tmp/link\<close>
  resolves to \<open>/allowed\<close>, which is the root, but the path itself is not under a root and
  the first check refuses it.
\<close>

theorem validatePath_new_file_counterexample:
  "realpath exampleEnv (absolutePath exampleEnv ''/tmp/link/new'') = None
   \<and> realpath exampleEnv (pathDirname (absolutePath exampleEnv ''/tmp/link/new'')) = Some ''/allowed''
   \<and> contained exampleEnv ''/allowed''
   \<and> isAllowed exampleEnv (normalizePath ''/allowed'')
   \<and> validatePath exampleEnv ''/tmp/link/new'' = Inl (AccessDeniedPath ''/tmp/link/new'' [''/allowed''])"
  by code_simp

subsection \<open>Containment on whole segments passes the check of the code\<close>

lemma split_not_Nil: "split sep s \<noteq> []"
  by (induction s) (auto split: list.splits)

lemma split_sepfree: "sep \<notin> set x \<Longrightarrow> split sep x = [x]"
  by (induction x) auto

lemma split_append: "split sep (a @ sep # b) = split sep a @ split sep b"
proof (induction a)
  case Nil
  show ?case by simp
next
  case (Cons c cs)
  obtain x xs where x: "split sep cs = x # xs"
    using split_not_Nil [of sep cs] by (cases "split sep cs") auto
  with Cons show ?case by simp
qed

lemma split_sep_free: "x \<in> set (split sep s) \<Longrightarrow> sep \<notin> set x"
proof (induction s arbitrary: x)
  case Nil
  then show ?case by simp
next
  case (Cons c cs)
  obtain y ys where y: "split sep cs = y # ys"
    using split_not_Nil [of sep cs] by (cases "split sep cs") auto
  show ?case
  proof (cases "c = sep")
    case True
    with Cons show ?thesis by auto
  next
    case False
    with Cons.prems y have "x = c # y \<or> x \<in> set ys" by simp
    then show ?thesis
    proof
      assume "x = c # y"
      moreover have "sep \<notin> set y" using Cons.IH [of y] y by simp
      ultimately show ?thesis using False by auto
    next
      assume "x \<in> set ys"
      then show ?thesis using Cons.IH [of x] y by simp
    qed
  qed
qed

lemma segments_Nil: "segments [] = []"
  by (simp add: segments_def)

lemma segments_append: "segments (a @ CHR ''/'' # b) = segments a @ segments b"
  by (simp add: segments_def split_append)

lemma segments_plain: "s \<noteq> [] \<Longrightarrow> CHR ''/'' \<notin> set s \<Longrightarrow> segments s = [s]"
  by (simp add: segments_def split_sepfree)

lemma segments_join:
  "\<forall>s\<in>set segs. s \<noteq> [] \<and> CHR ''/'' \<notin> set s \<Longrightarrow> segments (join CHR ''/'' segs) = segs"
  by (induction "CHR ''/''" segs rule: join.induct)
     (simp_all add: segments_Nil segments_plain segments_append)

lemma segments_shape:
  assumes "\<forall>s\<in>set segs. s \<noteq> [] \<and> CHR ''/'' \<notin> set s" and "t = [] \<or> t = ''/''"
  shows "segments (''/'' @ join CHR ''/'' segs @ t) = segs"
proof -
  have "segments (''/'' @ join CHR ''/'' segs @ t) = segments (join CHR ''/'' segs @ t)"
    using segments_append [of "[]" "join CHR ''/'' segs @ t"] by (simp add: segments_Nil)
  also have "\<dots> = segs"
    using assms(2) segments_append [of "join CHR ''/'' segs" "[]"] segments_join [OF assms(1)]
    by (auto simp: segments_Nil)
  finally show ?thesis .
qed

lemma join_append_ex: "\<exists>x. join sep (xs @ ys) = join sep xs @ x"
proof (induction sep xs rule: join.induct)
  case (1 sep)
  show ?case by simp
next
  case (2 sep a)
  show ?case by (cases ys) auto
next
  case (3 sep a b bs)
  then obtain x where "join sep ((b # bs) @ ys) = join sep (b # bs) @ x" by blast
  then show ?case by simp
qed

lemma startsWith_same: "startsWith (a @ b) a"
  by (induction a) auto

lemma shape_startsWith:
  assumes rs: "\<forall>s\<in>set rs. s \<noteq> [] \<and> CHR ''/'' \<notin> set s"
    and ps: "\<forall>s\<in>set ps. s \<noteq> [] \<and> CHR ''/'' \<notin> set s"
    and t: "t = [] \<or> t = ''/''"
    and c: "segmentContained (''/'' @ join CHR ''/'' rs) (''/'' @ join CHR ''/'' ps @ t)"
  shows "startsWith (''/'' @ join CHR ''/'' ps @ t) (''/'' @ join CHR ''/'' rs)"
proof -
  have "segments (''/'' @ join CHR ''/'' rs) = rs"
    using segments_shape [OF rs, of "[]"] by simp
  moreover have "segments (''/'' @ join CHR ''/'' ps @ t) = ps"
    by (rule segments_shape [OF ps t])
  ultimately have "take (length rs) ps = rs"
    using c by (simp add: segmentContained_def)
  then have "ps = rs @ drop (length rs) ps"
    by (metis append_take_drop_id)
  then obtain x where "join CHR ''/'' ps = join CHR ''/'' rs @ x"
    using join_append_ex [of "CHR ''/''" rs "drop (length rs) ps"] by auto
  then have "''/'' @ join CHR ''/'' ps @ t = (''/'' @ join CHR ''/'' rs) @ (x @ t)"
    by simp
  then show ?thesis
    using startsWith_same [of "''/'' @ join CHR ''/'' rs" "x @ t"] by simp
qed

lemma normalizeSegs_plain:
  "\<forall>s\<in>set acc. s \<noteq> [] \<and> CHR ''/'' \<notin> set s \<Longrightarrow> \<forall>s\<in>set ss. CHR ''/'' \<notin> set s \<Longrightarrow>
   \<forall>s\<in>set (normalizeSegs allowAboveRoot acc ss). s \<noteq> [] \<and> CHR ''/'' \<notin> set s"
proof (induction ss arbitrary: acc)
  case Nil
  then show ?case by simp
next
  case (Cons s ss)
  from Cons.prems(2) have ss: "\<forall>s\<in>set ss. CHR ''/'' \<notin> set s" and s: "CHR ''/'' \<notin> set s"
    by simp_all
  have dots: "\<forall>s\<in>set (''..'' # acc). s \<noteq> [] \<and> CHR ''/'' \<notin> set s"
    using Cons.prems(1) by simp
  have tl: "\<forall>s\<in>set (tl acc). s \<noteq> [] \<and> CHR ''/'' \<notin> set s"
    using Cons.prems(1) by (cases acc) simp_all
  have push: "s \<noteq> [] \<Longrightarrow> \<forall>x\<in>set (s # acc). x \<noteq> [] \<and> CHR ''/'' \<notin> set x"
    using Cons.prems(1) s by simp
  show ?case
  proof (cases "s = [] \<or> s = ''.''")
    case True
    then show ?thesis using Cons.IH [OF Cons.prems(1) ss] by auto
  next
    case False
    show ?thesis
    proof (cases "s = ''..''")
      case True
      show ?thesis
      proof (cases acc)
        case Nil
        with True show ?thesis
          using Cons.IH [OF Cons.prems(1) ss] Cons.IH [OF dots ss] by simp
      next
        case (Cons t ts)
        with True show ?thesis
          using Cons.IH [OF Cons.prems(1) ss] Cons.IH [OF dots ss] Cons.IH [OF tl ss] by simp
      qed
    next
      case notdots: False
      from False have "s \<noteq> []" by simp
      from Cons.IH [OF push [OF this] ss] False notdots show ?thesis by simp
    qed
  qed
qed

lemma hd_join: "segs \<noteq> [] \<Longrightarrow> hd segs \<noteq> [] \<Longrightarrow> hd (join sep segs) = hd (hd segs)"
  by (induction sep segs rule: join.induct) auto

lemma join_last_not_Nil: "segs \<noteq> [] \<Longrightarrow> last segs \<noteq> [] \<Longrightarrow> join sep segs \<noteq> []"
  by (induction sep segs rule: join.induct) auto

lemma last_join: "segs \<noteq> [] \<Longrightarrow> last segs \<noteq> [] \<Longrightarrow> last (join sep segs) = last (last segs)"
proof (induction sep segs rule: join.induct)
  case (1 sep)
  then show ?case by simp
next
  case (2 sep x)
  then show ?case by simp
next
  case (3 sep x y ys)
  then have "join sep (y # ys) \<noteq> []"
    using join_last_not_Nil [of "y # ys" sep] by simp
  with 3 show ?case by simp
qed

lemma join_Nil_iff: "\<forall>s\<in>set segs. s \<noteq> [] \<Longrightarrow> join sep segs = [] \<longleftrightarrow> segs = []"
  by (induction sep segs rule: join.induct) auto

lemma join_not_absolute:
  assumes "\<forall>s\<in>set segs. s \<noteq> [] \<and> CHR ''/'' \<notin> set s"
  shows "\<not> pathIsAbsolute (join CHR ''/'' segs)"
proof (cases segs)
  case Nil
  then show ?thesis by (simp add: pathIsAbsolute_def)
next
  case (Cons a as)
  with assms have a: "a \<noteq> []" "CHR ''/'' \<notin> set a" by simp_all
  then have "hd a \<noteq> CHR ''/''" by (cases a) auto
  moreover have "hd (join CHR ''/'' segs) = hd a"
    using hd_join [of segs "CHR ''/''"] Cons a by simp
  ultimately show ?thesis by (simp add: pathIsAbsolute_def)
qed

lemma join_last_not_sep:
  assumes "\<forall>s\<in>set segs. s \<noteq> [] \<and> CHR ''/'' \<notin> set s" and "segs \<noteq> []"
  shows "last (join CHR ''/'' segs) \<noteq> CHR ''/''"
proof -
  from assms have l: "last segs \<noteq> []" "CHR ''/'' \<notin> set (last segs)"
    using last_in_set by blast+
  then have "last (last segs) \<noteq> CHR ''/''"
    using last_in_set by metis
  with last_join [OF assms(2) l(1), of "CHR ''/''"] show ?thesis by simp
qed

text \<open>The shape of a resolved path.\<close>

lemma pathResolve_shape:
  assumes "pathIsAbsolute (pathResolve wd paths)"
  shows "\<exists>segs. (\<forall>s\<in>set segs. s \<noteq> [] \<and> CHR ''/'' \<notin> set s)
           \<and> pathResolve wd paths = ''/'' @ join CHR ''/'' segs"
proof -
  define resolved where "resolved = resolveArgs (rev (wd # paths)) []"
  define segs where "segs = normalizeSegs (\<not> pathIsAbsolute resolved) [] (split CHR ''/'' resolved)"
  have plain: "\<forall>s\<in>set segs. s \<noteq> [] \<and> CHR ''/'' \<notin> set s"
    unfolding segs_def by (rule normalizeSegs_plain) (auto dest: split_sep_free)
  have eq: "pathResolve wd paths =
      (if pathIsAbsolute resolved then ''/'' @ join CHR ''/'' segs
       else if segs = [] then ''.'' else join CHR ''/'' segs)"
    by (simp add: pathResolve_def Let_def resolved_def segs_def)
  show ?thesis
  proof (cases "pathIsAbsolute resolved")
    case True
    with eq plain show ?thesis by auto
  next
    case False
    with eq assms join_not_absolute [OF plain] have False
      by (auto simp: pathIsAbsolute_def split: if_splits)
    then show ?thesis ..
  qed
qed

text \<open>The shape of a normalized absolute path.\<close>

lemma pathNormalize_absolute: "pathIsAbsolute (pathNormalize q) \<Longrightarrow> pathIsAbsolute q"
proof (rule ccontr)
  assume abs: "pathIsAbsolute (pathNormalize q)" and rel: "\<not> pathIsAbsolute q"
  define segs where "segs = normalizeSegs True [] (split CHR ''/'' q)"
  have plain: "\<forall>s\<in>set segs. s \<noteq> [] \<and> CHR ''/'' \<notin> set s"
    unfolding segs_def by (rule normalizeSegs_plain) (auto dest: split_sep_free)
  show False
  proof (cases "q = []")
    case True
    with abs show False by (simp add: pathNormalize_def pathIsAbsolute_def)
  next
    case False
    show False
    proof (cases "segs = []")
      case True
      with abs rel False show False
        by (auto simp: pathNormalize_def pathIsAbsolute_def Let_def segs_def split: if_splits)
    next
      case nonempty: False
      from plain nonempty have "join CHR ''/'' segs \<noteq> []"
        by (simp add: join_Nil_iff)
      then have "hd (join CHR ''/'' segs @ (if last q = CHR ''/'' then ''/'' else []))
          = hd (join CHR ''/'' segs)" by simp
      moreover have "hd (join CHR ''/'' segs) \<noteq> CHR ''/''"
        using join_not_absolute [OF plain] \<open>join CHR ''/'' segs \<noteq> []\<close>
        by (simp add: pathIsAbsolute_def)
      ultimately show False
        using abs rel False nonempty
        by (auto simp: pathNormalize_def pathIsAbsolute_def Let_def segs_def split: if_splits)
    qed
  qed
qed

lemma pathNormalize_shape:
  assumes "pathIsAbsolute q"
  shows "\<exists>segs t. (\<forall>s\<in>set segs. s \<noteq> [] \<and> CHR ''/'' \<notin> set s)
           \<and> (t = [] \<or> t = ''/'') \<and> (last q \<noteq> CHR ''/'' \<longrightarrow> t = [])
           \<and> pathNormalize q = ''/'' @ join CHR ''/'' segs @ t"
proof -
  define segs where "segs = normalizeSegs False [] (split CHR ''/'' q)"
  have plain: "\<forall>s\<in>set segs. s \<noteq> [] \<and> CHR ''/'' \<notin> set s"
    unfolding segs_def by (rule normalizeSegs_plain) (auto dest: split_sep_free)
  from assms have "q \<noteq> []" by (simp add: pathIsAbsolute_def)
  with assms have "pathNormalize q =
      ''/'' @ join CHR ''/'' segs @ (if segs \<noteq> [] \<and> last q = CHR ''/'' then ''/'' else [])"
    by (simp add: pathNormalize_def Let_def segs_def)
  with plain show ?thesis by (intro exI [of _ segs]) auto
qed

lemma lowerChar_sep: "lowerChar c = CHR ''/'' \<longleftrightarrow> c = CHR ''/''"
proof
  assume l: "lowerChar c = CHR ''/''"
  show "c = CHR ''/''"
  proof (rule ccontr)
    assume n: "c \<noteq> CHR ''/''"
    define k where "k = (of_char c :: nat)"
    from l n have range: "(65 \<le> k \<and> k \<le> 90) \<or> (192 \<le> k \<and> k \<le> 222 \<and> k \<noteq> 215)"
      and "char_of (k + 32) = CHR ''/''"
      by (auto simp: lowerChar_def Let_def k_def split: if_splits)
    then have "(of_char (char_of (k + 32) :: char) :: nat) = of_char CHR ''/''" by simp
    then have "(k + 32) mod 256 = 47" by simp
    with range show False by auto
  qed
next
  assume "c = CHR ''/''"
  then show "lowerChar c = CHR ''/''" by (simp add: lowerChar_def)
qed

lemma toLowerCase_absolute: "pathIsAbsolute (toLowerCase p) \<longleftrightarrow> pathIsAbsolute p"
  by (cases p) (simp_all add: pathIsAbsolute_def toLowerCase_def lowerChar_sep)

lemma toLowerCase_append: "toLowerCase (a @ b) = toLowerCase a @ toLowerCase b"
  by (simp add: toLowerCase_def)

lemma toLowerCase_join:
  "toLowerCase (join CHR ''/'' segs) = join CHR ''/'' (map toLowerCase segs)"
proof (induction "CHR ''/''" segs rule: join.induct)
  case 1
  show ?case by (simp add: toLowerCase_def)
next
  case (2 x)
  show ?case by simp
next
  case (3 x y ys)
  have "lowerChar CHR ''/'' = CHR ''/''" by (simp add: lowerChar_sep)
  with 3 show ?case by (simp add: toLowerCase_def)
qed

lemma toLowerCase_plain:
  "\<forall>s\<in>set segs. s \<noteq> [] \<and> CHR ''/'' \<notin> set s \<Longrightarrow>
   \<forall>s\<in>set (map toLowerCase segs). s \<noteq> [] \<and> CHR ''/'' \<notin> set s"
proof
  fix s assume "s \<in> set (map toLowerCase segs)"
  then obtain x where x: "x \<in> set segs" "s = toLowerCase x" by auto
  assume "\<forall>s\<in>set segs. s \<noteq> [] \<and> CHR ''/'' \<notin> set s"
  with x(1) have px: "x \<noteq> []" "CHR ''/'' \<notin> set x" by simp_all
  have "CHR ''/'' \<notin> set (toLowerCase x)"
  proof
    assume "CHR ''/'' \<in> set (toLowerCase x)"
    then obtain c where "c \<in> set x" "lowerChar c = CHR ''/''"
      by (auto simp: toLowerCase_def)
    with px(2) show False by (simp add: lowerChar_sep)
  qed
  with px(1) x(2) show "s \<noteq> [] \<and> CHR ''/'' \<notin> set s"
    by (simp add: toLowerCase_def)
qed

lemma toLowerCase_shape:
  assumes "t = [] \<or> t = ''/''"
  shows "toLowerCase (''/'' @ join CHR ''/'' segs @ t) = ''/'' @ join CHR ''/'' (map toLowerCase segs) @ t"
proof -
  have sep: "toLowerCase ''/'' = ''/''" by (simp add: toLowerCase_def lowerChar_sep)
  have t: "toLowerCase t = t" using assms sep by (auto simp: toLowerCase_def)
  have "toLowerCase (''/'' @ join CHR ''/'' segs @ t)
      = toLowerCase ''/'' @ toLowerCase (join CHR ''/'' segs) @ toLowerCase t"
    by (simp only: toLowerCase_append)
  also have "\<dots> = ''/'' @ join CHR ''/'' (map toLowerCase segs) @ t"
    by (simp only: sep t toLowerCase_join)
  finally show ?thesis .
qed

text \<open>The shape of the comparison form of an absolute path.\<close>

lemma normalizePath_shape:
  assumes "pathIsAbsolute (normalizePath q)"
  shows "\<exists>segs t. (\<forall>s\<in>set segs. s \<noteq> [] \<and> CHR ''/'' \<notin> set s)
           \<and> (t = [] \<or> t = ''/'') \<and> (last q \<noteq> CHR ''/'' \<longrightarrow> t = [])
           \<and> normalizePath q = ''/'' @ join CHR ''/'' segs @ t"
proof -
  from assms have "pathIsAbsolute q"
    by (simp add: normalizePath_def toLowerCase_absolute pathNormalize_absolute)
  from pathNormalize_shape [OF this] obtain segs t
    where s: "\<forall>s\<in>set segs. s \<noteq> [] \<and> CHR ''/'' \<notin> set s" "t = [] \<or> t = ''/''"
      "last q \<noteq> CHR ''/'' \<longrightarrow> t = []" "pathNormalize q = ''/'' @ join CHR ''/'' segs @ t"
    by blast
  have "normalizePath q = ''/'' @ join CHR ''/'' (map toLowerCase segs) @ t"
    using s(4) toLowerCase_shape [OF s(2), of segs] by (simp add: normalizePath_def)
  with toLowerCase_plain [OF s(1)] s(2,3) show ?thesis by blast
qed

text \<open>An allowed directory that is absolute has no trailing separator.\<close>

lemma allowedDirectories_shape:
  assumes "root \<in> set (allowedDirectories e)" and "pathIsAbsolute root"
  shows "\<exists>segs. (\<forall>s\<in>set segs. s \<noteq> [] \<and> CHR ''/'' \<notin> set s) \<and> root = ''/'' @ join CHR ''/'' segs"
proof -
  from assms(1) obtain dir
    where root: "root = normalizePath (pathResolve (cwd e) [expandHome e dir])"
    by (auto simp: allowedDirectories_def)
  define r where "r = pathResolve (cwd e) [expandHome e dir]"
  from assms(2) root have "pathIsAbsolute r"
    by (simp add: r_def normalizePath_def toLowerCase_absolute pathNormalize_absolute)
  from pathResolve_shape [OF this [unfolded r_def]] obtain rs
    where rs: "\<forall>s\<in>set rs. s \<noteq> [] \<and> CHR ''/'' \<notin> set s" "r = ''/'' @ join CHR ''/'' rs"
    by (auto simp: r_def)
  from assms(2) root normalizePath_shape [of r] obtain segs t
    where s: "\<forall>s\<in>set segs. s \<noteq> [] \<and> CHR ''/'' \<notin> set s" "t = [] \<or> t = ''/''"
      "last r \<noteq> CHR ''/'' \<longrightarrow> t = []" "normalizePath r = ''/'' @ join CHR ''/'' segs @ t"
    by (auto simp: r_def)
  show ?thesis
  proof (cases "rs = []")
    case True
    with rs(2) have "r = ''/''" by simp
    moreover have "normalizePath ''/'' = ''/''" by code_simp
    ultimately show ?thesis using root by (intro exI [of _ "[]"]) (simp add: r_def)
  next
    case False
    from join_last_not_sep [OF rs(1) False] rs(2) have "last r \<noteq> CHR ''/''"
      using join_Nil_iff [of rs "CHR ''/''"] rs(1) False by simp
    with s(3) have "t = []" by simp
    with s(1,4) root show ?thesis by (auto simp: r_def)
  qed
qed

text \<open>What is contained in an allowed directory, on whole segments, passes the code's test.\<close>

lemma contained_isAllowed: "contained e p \<Longrightarrow> isAllowed e (normalizePath p)"
proof -
  assume "contained e p"
  then obtain root where root: "root \<in> set (allowedDirectories e)" "pathIsAbsolute root"
      "pathIsAbsolute (normalizePath p)" "segmentContained root (normalizePath p)"
    by (auto simp: contained_def withinRoot_def list_ex_iff)
  from allowedDirectories_shape [OF root(1,2)] obtain rs
    where rs: "\<forall>s\<in>set rs. s \<noteq> [] \<and> CHR ''/'' \<notin> set s" "root = ''/'' @ join CHR ''/'' rs"
    by blast
  from normalizePath_shape [OF root(3)] obtain ps t
    where ps: "\<forall>s\<in>set ps. s \<noteq> [] \<and> CHR ''/'' \<notin> set s" "t = [] \<or> t = ''/''"
      "normalizePath p = ''/'' @ join CHR ''/'' ps @ t"
    by blast
  from root(4) have "startsWith (normalizePath p) root"
    unfolding rs(2) ps(3) by (rule shape_startsWith [OF rs(1) ps(1) ps(2)])
  with root(1) show ?thesis by (auto simp: isAllowed_def list_ex_iff)
qed

text \<open>The new file next to the sibling directory is not contained, nor is its parent.\<close>

lemma sibling_not_contained:
  "\<not> contained exampleEnv (absolutePath exampleEnv ''/allowed-evil/new'')
   \<and> \<not> contained exampleEnv ''/allowed-evil''"
  by code_simp

text \<open>
  C3, amended: a path whose absolute form is contained in an allowed root, on whole
  segments, which does not exist, and whose parent directory exists with a real path
  contained in an allowed root, on whole segments, is validated, and the result is its
  absolute form, unresolved.
\<close>

theorem validatePath_new_file:
  assumes "contained e (absolutePath e requestedPath)"
    and "realpath e (absolutePath e requestedPath) = None"
    and "realpath e (pathDirname (absolutePath e requestedPath)) = Some realParentPath"
    and "contained e realParentPath"
  shows "validatePath e requestedPath = Inr (absolutePath e requestedPath)"
  using contained_isAllowed [OF assms(1)] assms(2,3) contained_isAllowed [OF assms(4)]
  by (simp add: validatePath_def checkRealPath_def checkParent_def Let_def)

theorem validatePath_new_file_witness:
  "contained exampleEnv (absolutePath exampleEnv ''/allowed/new'')
   \<and> realpath exampleEnv (absolutePath exampleEnv ''/allowed/new'') = None
   \<and> realpath exampleEnv (pathDirname (absolutePath exampleEnv ''/allowed/new'')) = Some ''/allowed''
   \<and> contained exampleEnv ''/allowed''
   \<and> validatePath exampleEnv ''/allowed/new'' = Inr ''/allowed/new''"
proof -
  have a: "contained exampleEnv (absolutePath exampleEnv ''/allowed/new'')"
    by code_simp
  have b: "realpath exampleEnv (absolutePath exampleEnv ''/allowed/new'') = None"
    by code_simp
  have c: "realpath exampleEnv (pathDirname (absolutePath exampleEnv ''/allowed/new'')) = Some ''/allowed''"
    by code_simp
  have d: "contained exampleEnv ''/allowed''"
    by code_simp
  have abs: "absolutePath exampleEnv ''/allowed/new'' = ''/allowed/new''"
    by code_simp
  from validatePath_new_file [OF a b c d] abs
  have "validatePath exampleEnv ''/allowed/new'' = Inr ''/allowed/new''" by simp
  with a b c d show ?thesis by simp
qed

text \<open>
  C4.  For a path that does not exist, a parent directory whose real path is outside
  every root is to be refused as access denied, and a missing parent reported only when
  there is none.  The code throws the refusal inside the \<open>try\<close> block whose \<open>catch\<close>
  reports a missing parent: for \<open>/allowed/sub/new\<close>, where \<open>sub\<close> is a link to the
  existing directory \<open>/outside\<close>, the error is that the parent does not exist.
\<close>

theorem validatePath_parent_outside_reported_missing:
  "realpath exampleEnv ''/allowed/sub/new'' = None
   \<and> realpath exampleEnv (pathDirname ''/allowed/sub/new'') = Some ''/outside''
   \<and> \<not> isAllowed exampleEnv (normalizePath ''/outside'')
   \<and> validatePath exampleEnv ''/allowed/sub/new'' = Inl (ParentMissing ''/allowed/sub'')
   \<and> \<not> isAccessDenied (ParentMissing ''/allowed/sub'')"
  by code_simp

section \<open>Editing files: results\<close>

text \<open>
  C5.  An exact match is to be replaced by the new text itself.  The code hands the new
  text to \<open>replace\<close> as a replacement pattern, in which a dollar sign is special: the
  edit of \<open>total\<close> into \<open>$$total\<close> leaves \<open>$total\<close>.
\<close>

theorem applyEdits_dollar_pattern:
  "includesStr ''total'' (normalizeLineEndings ''total'')
   \<and> applyEdits ''total'' [\<lparr>oldText = ''total'', newText = ''$$total''\<rparr>] = Inr ''$total''"
  by code_simp

text \<open>
  Where the new text holds no dollar sign, the exact step does what is asked: the first
  occurrence of the old text, and nothing else, gives way to the new text.
\<close>

lemma getSubstitution_plain:
  "CHR ''$'' \<notin> set template \<Longrightarrow> getSubstitution matched preceding following template = template"
  by (induction matched preceding following template rule: getSubstitution.induct) auto

lemma startsWith_append: "startsWith s p \<Longrightarrow> s = p @ drop (length p) s"
  by (induction s p rule: startsWith.induct) auto

lemma searchFrom_split:
  "searchFrom pat pre s = Some (a, b) \<Longrightarrow> rev pre @ s = a @ pat @ b"
proof (induction s arbitrary: pre)
  case Nil
  then show ?case by (simp split: if_splits)
next
  case (Cons c cs)
  show ?case
  proof (cases "startsWith (c # cs) pat")
    case True
    with Cons.prems have "a = rev pre" "b = drop (length pat) (c # cs)" by simp_all
    with startsWith_append [OF True] show ?thesis by simp
  next
    case False
    with Cons.prems have "searchFrom pat (c # pre) cs = Some (a, b)" by simp
    from Cons.IH [OF this] show ?thesis by simp
  qed
qed

lemma searchFrom_first:
  "searchFrom pat pre s = Some (a, b) \<Longrightarrow> k < length a - length pre \<Longrightarrow> \<not> startsWith (drop k s) pat"
proof (induction s arbitrary: pre k)
  case Nil
  then show ?case by (auto split: if_splits)
next
  case (Cons c cs)
  show ?case
  proof (cases "startsWith (c # cs) pat")
    case True
    with Cons.prems have "a = rev pre" by auto
    with Cons.prems(2) show ?thesis by simp
  next
    case False
    with Cons.prems have s: "searchFrom pat (c # pre) cs = Some (a, b)" by simp
    show ?thesis
    proof (cases k)
      case 0
      with False show ?thesis by simp
    next
      case (Suc k')
      with Cons.prems(2) have "k' < length a - length (c # pre)" by simp
      from Cons.IH [OF s this] Suc show ?thesis by simp
    qed
  qed
qed

lemma replace_plain_first_occurrence:
  assumes "includesStr s pat" and "CHR ''$'' \<notin> set template"
  shows "\<exists>a b. s = a @ pat @ b \<and> (\<forall>k<length a. \<not> startsWith (drop k s) pat)
           \<and> replace s pat template = a @ template @ b"
proof -
  from assms(1) obtain a b where ab: "searchFrom pat [] s = Some (a, b)"
    by (auto simp: includesStr_def)
  from searchFrom_split [OF ab] have "s = a @ pat @ b" by simp
  moreover have "\<forall>k<length a. \<not> startsWith (drop k s) pat"
    using searchFrom_first [OF ab] by simp
  moreover have "replace s pat template = a @ template @ b"
    using ab assms(2) by (simp add: replace_def getSubstitution_plain)
  ultimately show ?thesis by blast
qed

subsection \<open>The loop over the windows\<close>

declare fuzzyLoop.simps [simp del]
declare countBackticks.simps [simp del]

lemma isMatch_slice:
  "i + length oldLines \<le> length contentLines \<Longrightarrow>
   isMatch oldLines (slice contentLines i (i + length oldLines)) = windowMatches oldLines contentLines i"
  by (simp add: isMatch_def slice_def windowMatches_def list_all_iff)

lemma windowMatches_bound: "windowMatches oldLines contentLines i \<Longrightarrow> i + length oldLines \<le> length contentLines"
  by (simp add: windowMatches_def)

lemma fuzzyLoop_first:
  "i \<le> m \<Longrightarrow> windowMatches oldLines contentLines m \<Longrightarrow>
   \<exists>w. i \<le> w \<and> w \<le> m \<and> windowMatches oldLines contentLines w
     \<and> (\<forall>j. i \<le> j \<and> j < w \<longrightarrow> \<not> windowMatches oldLines contentLines j)
     \<and> fuzzyLoop oldLines contentLines normalizedNew i
         = Some (join CHR 0x0A
       (take w contentLines
        @ replacementLines oldLines (leadingWhitespace (contentLines ! w)) normalizedNew
        @ drop (w + length oldLines) contentLines))"
proof (induction oldLines contentLines normalizedNew i rule: fuzzyLoop.induct)
  case (1 oldLines contentLines normalizedNew i)
  from "1.prems" have bound: "i + length oldLines \<le> length contentLines"
    by (auto dest: windowMatches_bound)
  show ?case
  proof (cases "windowMatches oldLines contentLines i")
    case True
    with bound have "fuzzyLoop oldLines contentLines normalizedNew i
         = Some (join CHR 0x0A
       (take i contentLines
        @ replacementLines oldLines (leadingWhitespace (contentLines ! i)) normalizedNew
        @ drop (i + length oldLines) contentLines))"
      by (subst fuzzyLoop.simps) (simp add: isMatch_slice splice_def)
    with True "1.prems" show ?thesis by auto
  next
    case False
    with "1.prems" have "i \<noteq> m" by auto
    with "1.prems" have le: "i + 1 \<le> m" by simp
    from False bound have nm: "\<not> isMatch oldLines (slice contentLines i (i + length oldLines))"
      by (simp add: isMatch_slice)
    from "1.IH" [OF bound nm le "1.prems"(2)]
    obtain w where w: "i + 1 \<le> w" "w \<le> m" "windowMatches oldLines contentLines w"
      "\<forall>j. i + 1 \<le> j \<and> j < w \<longrightarrow> \<not> windowMatches oldLines contentLines j"
      "fuzzyLoop oldLines contentLines normalizedNew (i + 1)
         = Some (join CHR 0x0A
       (take w contentLines
        @ replacementLines oldLines (leadingWhitespace (contentLines ! w)) normalizedNew
        @ drop (w + length oldLines) contentLines))"
      by blast
    have step: "fuzzyLoop oldLines contentLines normalizedNew i
        = fuzzyLoop oldLines contentLines normalizedNew (i + 1)"
      using bound nm by (subst fuzzyLoop.simps) simp
    have "\<forall>j. i \<le> j \<and> j < w \<longrightarrow> \<not> windowMatches oldLines contentLines j"
    proof (intro allI impI)
      fix j assume j: "i \<le> j \<and> j < w"
      show "\<not> windowMatches oldLines contentLines j"
      proof (cases "j = i")
        case True
        with False show ?thesis by simp
      next
        case False
        with j have "i + 1 \<le> j \<and> j < w" by simp
        with w(4) show ?thesis by blast
      qed
    qed
    with w step show ?thesis
      by (intro exI [of _ w]) simp
  qed
qed

lemma fuzzyLoop_Some:
  "fuzzyLoop oldLines contentLines normalizedNew i = Some r \<Longrightarrow>
   \<exists>w. i \<le> w \<and> windowMatches oldLines contentLines w"
proof (induction oldLines contentLines normalizedNew i rule: fuzzyLoop.induct)
  case (1 oldLines contentLines normalizedNew i)
  show ?case
  proof (cases "i + length oldLines \<le> length contentLines")
    case bound: True
    show ?thesis
    proof (cases "isMatch oldLines (slice contentLines i (i + length oldLines))")
      case True
      with bound have "windowMatches oldLines contentLines i" by (simp add: isMatch_slice)
      then show ?thesis by blast
    next
      case False
      with bound "1.prems" have "fuzzyLoop oldLines contentLines normalizedNew (i + 1) = Some r"
        by (subst (asm) fuzzyLoop.simps) simp
      from "1.IH" [OF bound False this] show ?thesis
        by (meson add_leD1)
    qed
  next
    case False
    with "1.prems" show ?thesis by (subst (asm) fuzzyLoop.simps) simp
  qed
qed

lemma fuzzyLoop_None_iff:
  "fuzzyLoop oldLines contentLines normalizedNew 0 = None
     \<longleftrightarrow> (\<forall>i. \<not> windowMatches oldLines contentLines i)"
proof
  assume none: "fuzzyLoop oldLines contentLines normalizedNew 0 = None"
  show "\<forall>i. \<not> windowMatches oldLines contentLines i"
  proof (intro allI notI)
    fix m assume "windowMatches oldLines contentLines m"
    from fuzzyLoop_first [OF le0 this, of normalizedNew] none show False by auto
  qed
next
  assume "\<forall>i. \<not> windowMatches oldLines contentLines i"
  then show "fuzzyLoop oldLines contentLines normalizedNew 0 = None"
    by (cases "fuzzyLoop oldLines contentLines normalizedNew 0") (auto dest: fuzzyLoop_Some)
qed

lemma matchesFuzzily_iff:
  "matchesFuzzily content e \<longleftrightarrow>
     (\<exists>i. windowMatches (split CHR 0x0A (normalizeLineEndings (oldText e))) (split CHR 0x0A content) i)"
proof
  assume "matchesFuzzily content e"
  then show "\<exists>i. windowMatches (split CHR 0x0A (normalizeLineEndings (oldText e))) (split CHR 0x0A content) i"
    by (auto simp: matchesFuzzily_def list_ex_iff)
next
  assume "\<exists>i. windowMatches (split CHR 0x0A (normalizeLineEndings (oldText e))) (split CHR 0x0A content) i"
  then obtain i
    where i: "windowMatches (split CHR 0x0A (normalizeLineEndings (oldText e))) (split CHR 0x0A content) i"
    by blast
  then have "i \<in> set [0..<Suc (length (split CHR 0x0A content))]"
    by (auto dest: windowMatches_bound)
  with i show "matchesFuzzily content e"
    unfolding matchesFuzzily_def list_ex_iff by blast
qed

lemma applyEdit_None_iff:
  "applyEdit content e = None \<longleftrightarrow> \<not> matchesExactly content e \<and> \<not> matchesFuzzily content e"
  by (simp add: applyEdit_def Let_def matchesExactly_def matchesFuzzily_iff fuzzyLoop_None_iff)

lemma applyEdits_append:
  "applyEdits content (pre @ es) =
     (case applyEdits content pre of Inl err \<Rightarrow> Inl err | Inr c \<Rightarrow> applyEdits c es)"
  by (induction pre arbitrary: content) (auto split: option.splits)

lemma applyEdits_Inl_iff:
  "applyEdits content edits = Inl err \<longleftrightarrow>
     (\<exists>pre e post c. edits = pre @ e # post \<and> applyEdits content pre = Inr c
        \<and> applyEdit c e = None \<and> err = EditNotFound (oldText e))"
proof (induction edits arbitrary: content)
  case Nil
  then show ?case by simp
next
  case (Cons a edits)
  show ?case
  proof (cases "applyEdit content a")
    case None
    show ?thesis
    proof
      assume "applyEdits content (a # edits) = Inl err"
      with None have "err = EditNotFound (oldText a)" by simp
      with None show "\<exists>pre e post c. a # edits = pre @ e # post \<and> applyEdits content pre = Inr c
        \<and> applyEdit c e = None \<and> err = EditNotFound (oldText e)"
        by (intro exI [of _ "[]"] exI [of _ a] exI [of _ edits] exI [of _ content]) simp
    next
      assume "\<exists>pre e post c. a # edits = pre @ e # post \<and> applyEdits content pre = Inr c
        \<and> applyEdit c e = None \<and> err = EditNotFound (oldText e)"
      then obtain pre e post c where h: "a # edits = pre @ e # post" "applyEdits content pre = Inr c"
        "applyEdit c e = None" "err = EditNotFound (oldText e)" by blast
      show "applyEdits content (a # edits) = Inl err"
      proof (cases pre)
        case Nil
        with h None show ?thesis by simp
      next
        case (Cons b pre')
        with h have "b = a" by simp
        with Cons h(2) None show ?thesis by simp
      qed
    qed
  next
    case (Some c')
    have "applyEdits content (a # edits) = Inl err \<longleftrightarrow> applyEdits c' edits = Inl err"
      using Some by simp
    also have "\<dots> \<longleftrightarrow> (\<exists>pre e post c. edits = pre @ e # post \<and> applyEdits c' pre = Inr c
        \<and> applyEdit c e = None \<and> err = EditNotFound (oldText e))"
      by (rule Cons.IH)
    also have "\<dots> \<longleftrightarrow> (\<exists>pre e post c. a # edits = pre @ e # post \<and> applyEdits content pre = Inr c
        \<and> applyEdit c e = None \<and> err = EditNotFound (oldText e))"
    proof
      assume "\<exists>pre e post c. edits = pre @ e # post \<and> applyEdits c' pre = Inr c
        \<and> applyEdit c e = None \<and> err = EditNotFound (oldText e)"
      then obtain pre e post c where h: "edits = pre @ e # post" "applyEdits c' pre = Inr c"
        "applyEdit c e = None" "err = EditNotFound (oldText e)" by blast
      then show "\<exists>pre e post c. a # edits = pre @ e # post \<and> applyEdits content pre = Inr c
        \<and> applyEdit c e = None \<and> err = EditNotFound (oldText e)"
        using Some by (intro exI [of _ "a # pre"] exI [of _ e] exI [of _ post] exI [of _ c]) simp
    next
      assume "\<exists>pre e post c. a # edits = pre @ e # post \<and> applyEdits content pre = Inr c
        \<and> applyEdit c e = None \<and> err = EditNotFound (oldText e)"
      then obtain pre e post c where h: "a # edits = pre @ e # post" "applyEdits content pre = Inr c"
        "applyEdit c e = None" "err = EditNotFound (oldText e)" by blast
      show "\<exists>pre e post c. edits = pre @ e # post \<and> applyEdits c' pre = Inr c
        \<and> applyEdit c e = None \<and> err = EditNotFound (oldText e)"
      proof (cases pre)
        case Nil
        with h Some show ?thesis by simp
      next
        case (Cons b pre')
        with h have "b = a" "edits = pre' @ e # post" by simp_all
        with Cons h Some show ?thesis
          by (intro exI [of _ pre'] exI [of _ e] exI [of _ post] exI [of _ c]) simp
      qed
    qed
    finally show ?thesis .
  qed
qed

lemma hd_replacementLines:
  "hd (replacementLines oldLines originalIndent normalizedNew)
     = originalIndent @ trimStart (hd (split CHR 0x0A normalizedNew))"
proof (cases "split CHR 0x0A normalizedNew")
  case Nil
  then show ?thesis by (simp add: split_not_Nil)
next
  case (Cons l ls)
  then show ?thesis by (simp add: replacementLines_def replacementLine_def)
qed

lemma hd_replacementLines_explicit:
  "hd (replacementLines oldLines originalIndent normalizedNew)
     = originalIndent @ dropWhile isWhiteSpace (hd (split CHR 0x0A normalizedNew))"
  by (simp add: hd_replacementLines trimStart_def)

lemma split_join:
  "xs \<noteq> [] \<Longrightarrow> \<forall>x\<in>set xs. sep \<notin> set x \<Longrightarrow> split sep (join sep xs) = xs"
proof (induction sep xs rule: join.induct)
  case (1 sep)
  then show ?case by simp
next
  case (2 sep x)
  then show ?case by (simp add: split_sepfree)
next
  case (3 sep x y ys)
  then have "split sep (join sep (y # ys)) = y # ys" by simp
  with 3 show ?case by (simp add: split_append split_sepfree)
qed

lemma replacementLine_sep_free:
  assumes "CHR 0x0A \<notin> set originalIndent" and "CHR 0x0A \<notin> set line"
  shows "CHR 0x0A \<notin> set (replacementLine oldLines originalIndent (j, line))"
proof -
  have "CHR 0x0A \<notin> set (dropWhile isWhiteSpace line)"
    using assms(2) set_dropWhileD by fastforce
  with assms show ?thesis
    by (auto simp: replacementLine_def trimStart_def Let_def)
qed

lemma replacementLines_sep_free:
  assumes "CHR 0x0A \<notin> set originalIndent"
  shows "\<forall>l\<in>set (replacementLines oldLines originalIndent normalizedNew). CHR 0x0A \<notin> set l"
proof
  fix l assume "l \<in> set (replacementLines oldLines originalIndent normalizedNew)"
  then obtain j line where jl: "(j, line) \<in> set (enumerate 0 (split CHR 0x0A normalizedNew))"
      "l = replacementLine oldLines originalIndent (j, line)"
    by (auto simp: replacementLines_def)
  from jl(1) have "line \<in> set (split CHR 0x0A normalizedNew)"
    by (auto simp: in_set_enumerate_eq)
  then have "CHR 0x0A \<notin> set line" by (rule split_sep_free)
  with assms jl(2) show "CHR 0x0A \<notin> set l"
    by (simp add: replacementLine_sep_free)
qed

lemma length_replacementLines:
  "length (replacementLines oldLines originalIndent normalizedNew) = length (split CHR 0x0A normalizedNew)"
  by (simp add: replacementLines_def)

text \<open>The lines of the content after a window was replaced.\<close>

lemma spliced_lines:
  assumes "i < length (split CHR 0x0A content)"
  shows "split CHR 0x0A (join CHR 0x0A
            (take i (split CHR 0x0A content)
             @ replacementLines oldLines (leadingWhitespace (split CHR 0x0A content ! i)) normalizedNew
             @ drop (i + k) (split CHR 0x0A content)))
         = take i (split CHR 0x0A content)
             @ replacementLines oldLines (leadingWhitespace (split CHR 0x0A content ! i)) normalizedNew
             @ drop (i + k) (split CHR 0x0A content)"
proof (rule split_join)
  have "replacementLines oldLines (leadingWhitespace (split CHR 0x0A content ! i)) normalizedNew \<noteq> []"
    using length_replacementLines [of oldLines "leadingWhitespace (split CHR 0x0A content ! i)" normalizedNew]
      split_not_Nil [of "CHR 0x0A" normalizedNew] by auto
  then show "take i (split CHR 0x0A content)
             @ replacementLines oldLines (leadingWhitespace (split CHR 0x0A content ! i)) normalizedNew
             @ drop (i + k) (split CHR 0x0A content) \<noteq> []" by simp
next
  have cl: "\<forall>x\<in>set (split CHR 0x0A content). CHR 0x0A \<notin> set x"
    by (auto dest: split_sep_free)
  from assms cl have "CHR 0x0A \<notin> set (split CHR 0x0A content ! i)" by simp
  then have "CHR 0x0A \<notin> set (leadingWhitespace (split CHR 0x0A content ! i))"
    using set_takeWhileD by (fastforce simp: leadingWhitespace_def)
  from replacementLines_sep_free [OF this, of oldLines normalizedNew] cl
  show "\<forall>x\<in>set (take i (split CHR 0x0A content)
             @ replacementLines oldLines (leadingWhitespace (split CHR 0x0A content ! i)) normalizedNew
             @ drop (i + k) (split CHR 0x0A content)). CHR 0x0A \<notin> set x"
    by (auto dest: in_set_takeD in_set_dropD)
qed

text \<open>
  The lines of the content after the window at \<open>i\<close> was replaced: those before the window
  are as they were, the line at \<open>i\<close> is the first replacement line, and after the
  replacement lines come the lines that followed the window.
\<close>

lemma spliced_lines_parts:
  assumes "i + length oldLines \<le> length (split CHR 0x0A content)" and "oldLines \<noteq> []"
    and "r = join CHR 0x0A
            (take i (split CHR 0x0A content)
             @ replacementLines oldLines (leadingWhitespace (split CHR 0x0A content ! i)) normalizedNew
             @ drop (i + length oldLines) (split CHR 0x0A content))"
  shows "take i (split CHR 0x0A r) = take i (split CHR 0x0A content)"
    and "split CHR 0x0A r ! i
          = takeWhile isWhiteSpace (split CHR 0x0A content ! i)
            @ dropWhile isWhiteSpace (hd (split CHR 0x0A normalizedNew))"
    and "drop (i + length (split CHR 0x0A normalizedNew)) (split CHR 0x0A r)
          = drop (i + length oldLines) (split CHR 0x0A content)"
proof -
  let ?cl = "split CHR 0x0A content"
  let ?nls = "replacementLines oldLines (leadingWhitespace (?cl ! i)) normalizedNew"
  from assms(1,2) have i: "i < length ?cl" by (cases oldLines) simp_all
  have lines: "split CHR 0x0A r = take i ?cl @ ?nls @ drop (i + length oldLines) ?cl"
    unfolding assms(3) by (rule spliced_lines [OF i])
  have len: "length (take i ?cl) = i" using i by simp
  have nls: "?nls \<noteq> []"
    using length_replacementLines [of oldLines "leadingWhitespace (?cl ! i)" normalizedNew]
      split_not_Nil [of "CHR 0x0A" normalizedNew] by auto
  show "take i (split CHR 0x0A r) = take i ?cl"
    using len by (simp add: lines)
  have "split CHR 0x0A r ! i = (?nls @ drop (i + length oldLines) ?cl) ! 0"
    using len by (simp add: lines nth_append)
  also have "\<dots> = hd ?nls" using nls by (simp add: nth_append hd_conv_nth)
  finally show "split CHR 0x0A r ! i
          = takeWhile isWhiteSpace (?cl ! i) @ dropWhile isWhiteSpace (hd (split CHR 0x0A normalizedNew))"
    by (simp add: hd_replacementLines_explicit leadingWhitespace_def)
  show "drop (i + length (split CHR 0x0A normalizedNew)) (split CHR 0x0A r)
          = drop (i + length oldLines) ?cl"
    using len by (simp add: lines length_replacementLines)
qed

text \<open>
  C6.  Where the old text of an edit does not occur in the content and some window of
  the content's lines matches the lines of the old text, the edit replaces the matching
  window of lowest index: the lines before it and the lines after it are as they were,
  and the line that takes the place of the window's first line is the leading white
  space of that line followed by the first line of the new text without its own leading
  white space.  The content \<open>  return x;\<close> with the edit of \<open>return x;\<close> into \<open>return y;\<close>
  becomes \<open>  return y;\<close>; so does the line \<open>  return x;\<close> between two others when the
  old text is indented by four spaces and the new text by a tab.
\<close>

theorem fuzzy_replaces_first_window:
  assumes "\<not> includesStr content (normalizeLineEndings (oldText e))"
    and "windowMatches (split CHR 0x0A (normalizeLineEndings (oldText e))) (split CHR 0x0A content) m"
  shows "(\<exists>i\<le>m.
            windowMatches (split CHR 0x0A (normalizeLineEndings (oldText e))) (split CHR 0x0A content) i
          \<and> (\<forall>j<i. \<not> windowMatches (split CHR 0x0A (normalizeLineEndings (oldText e)))
                        (split CHR 0x0A content) j)
          \<and> applyEdit content e
              = Some (join CHR 0x0A
                  (take i (split CHR 0x0A content)
                   @ replacementLines (split CHR 0x0A (normalizeLineEndings (oldText e)))
                       (leadingWhitespace (split CHR 0x0A content ! i))
                       (normalizeLineEndings (newText e))
                   @ drop (i + length (split CHR 0x0A (normalizeLineEndings (oldText e))))
                       (split CHR 0x0A content)))
          \<and> hd (replacementLines (split CHR 0x0A (normalizeLineEndings (oldText e)))
                  (leadingWhitespace (split CHR 0x0A content ! i))
                  (normalizeLineEndings (newText e)))
              = takeWhile isWhiteSpace (split CHR 0x0A content ! i)
                @ dropWhile isWhiteSpace (hd (split CHR 0x0A (normalizeLineEndings (newText e))))
          \<and> (\<exists>r. applyEdit content e = Some r
                \<and> take i (split CHR 0x0A r) = take i (split CHR 0x0A content)
                \<and> split CHR 0x0A r ! i
                    = takeWhile isWhiteSpace (split CHR 0x0A content ! i)
                      @ dropWhile isWhiteSpace (hd (split CHR 0x0A (normalizeLineEndings (newText e))))
                \<and> drop (i + length (split CHR 0x0A (normalizeLineEndings (newText e)))) (split CHR 0x0A r)
                    = drop (i + length (split CHR 0x0A (normalizeLineEndings (oldText e))))
                        (split CHR 0x0A content)))
         \<and> isWhiteSpace CHR '' '' \<and> isWhiteSpace CHR 0x09 \<and> \<not> isWhiteSpace CHR ''r''
         \<and> applyEdits ''  return x;'' [\<lparr>oldText = ''return x;'', newText = ''return y;''\<rparr>]
             = Inr ''  return y;''
         \<and> \<not> includesStr (''begin'' @ [CHR 0x0A] @ ''  return x;'' @ [CHR 0x0A] @ ''end'') ''    return x;''
         \<and> applyEdits (''begin'' @ [CHR 0x0A] @ ''  return x;'' @ [CHR 0x0A] @ ''end'')
               [\<lparr>oldText = ''    return x;'', newText = [CHR 0x09] @ ''return y;''\<rparr>]
             = Inr (''begin'' @ [CHR 0x0A] @ ''  return y;'' @ [CHR 0x0A] @ ''end'')"
proof (intro conjI)
  let ?ol = "split CHR 0x0A (normalizeLineEndings (oldText e))"
  let ?cl = "split CHR 0x0A content"
  let ?nn = "normalizeLineEndings (newText e)"
  let ?r = "\<lambda>i. join CHR 0x0A
      (take i ?cl @ replacementLines ?ol (leadingWhitespace (?cl ! i)) ?nn
       @ drop (i + length ?ol) ?cl)"
  from fuzzyLoop_first [OF le0 assms(2), of ?nn]
  obtain w where w: "w \<le> m" "windowMatches ?ol ?cl w"
      "\<forall>j. 0 \<le> j \<and> j < w \<longrightarrow> \<not> windowMatches ?ol ?cl j"
      "fuzzyLoop ?ol ?cl ?nn 0 = Some (?r w)"
    by blast
  from assms(1) w(4) have res: "applyEdit content e = Some (?r w)"
    by (simp add: applyEdit_def Let_def)
  have first: "hd (replacementLines ?ol (leadingWhitespace (?cl ! w)) ?nn)
      = takeWhile isWhiteSpace (?cl ! w) @ dropWhile isWhiteSpace (hd (split CHR 0x0A ?nn))"
    by (simp add: hd_replacementLines_explicit leadingWhitespace_def)
  have bound: "w + length ?ol \<le> length ?cl"
    using w(2) by (rule windowMatches_bound)
  have ol: "?ol \<noteq> []" by (rule split_not_Nil)
  note parts = spliced_lines_parts [OF bound ol refl, of ?nn]
  from w(3) have lowest: "\<forall>j<w. \<not> windowMatches ?ol ?cl j" by simp
  show "\<exists>i\<le>m.
            windowMatches ?ol ?cl i
          \<and> (\<forall>j<i. \<not> windowMatches ?ol ?cl j)
          \<and> applyEdit content e = Some (?r i)
          \<and> hd (replacementLines ?ol (leadingWhitespace (?cl ! i)) ?nn)
              = takeWhile isWhiteSpace (?cl ! i) @ dropWhile isWhiteSpace (hd (split CHR 0x0A ?nn))
          \<and> (\<exists>r. applyEdit content e = Some r
                \<and> take i (split CHR 0x0A r) = take i ?cl
                \<and> split CHR 0x0A r ! i
                    = takeWhile isWhiteSpace (?cl ! i) @ dropWhile isWhiteSpace (hd (split CHR 0x0A ?nn))
                \<and> drop (i + length (split CHR 0x0A ?nn)) (split CHR 0x0A r)
                    = drop (i + length ?ol) ?cl)"
  proof (intro exI [of _ w] conjI)
    show "w \<le> m" by (rule w(1))
    show "windowMatches ?ol ?cl w" by (rule w(2))
    show "\<forall>j<w. \<not> windowMatches ?ol ?cl j" by (rule lowest)
    show "applyEdit content e = Some (?r w)" by (rule res)
    show "hd (replacementLines ?ol (leadingWhitespace (?cl ! w)) ?nn)
      = takeWhile isWhiteSpace (?cl ! w) @ dropWhile isWhiteSpace (hd (split CHR 0x0A ?nn))"
      by (rule first)
    show "\<exists>r. applyEdit content e = Some r
                \<and> take w (split CHR 0x0A r) = take w ?cl
                \<and> split CHR 0x0A r ! w
                    = takeWhile isWhiteSpace (?cl ! w) @ dropWhile isWhiteSpace (hd (split CHR 0x0A ?nn))
                \<and> drop (w + length (split CHR 0x0A ?nn)) (split CHR 0x0A r)
                    = drop (w + length ?ol) ?cl"
      using res parts by (intro exI [of _ "?r w"]) simp
  qed
next
  show "isWhiteSpace CHR '' ''" by code_simp
next
  show "isWhiteSpace CHR 0x09" by code_simp
next
  show "\<not> isWhiteSpace CHR ''r''" by code_simp
next
  show "applyEdits ''  return x;'' [\<lparr>oldText = ''return x;'', newText = ''return y;''\<rparr>]
             = Inr ''  return y;''"
    by code_simp
next
  show "\<not> includesStr (''begin'' @ [CHR 0x0A] @ ''  return x;'' @ [CHR 0x0A] @ ''end'') ''    return x;''"
    by code_simp
next
  show "applyEdits (''begin'' @ [CHR 0x0A] @ ''  return x;'' @ [CHR 0x0A] @ ''end'')
               [\<lparr>oldText = ''    return x;'', newText = [CHR 0x09] @ ''return y;''\<rparr>]
             = Inr (''begin'' @ [CHR 0x0A] @ ''  return y;'' @ [CHR 0x0A] @ ''end'')"
    by code_simp
qed

theorem fuzzy_replaces_first_window_witness:
  "\<not> includesStr (''begin'' @ [CHR 0x0A] @ ''  return x;'' @ [CHR 0x0A] @ ''end'')
        (normalizeLineEndings ''    return x;'')
   \<and> windowMatches (split CHR 0x0A (normalizeLineEndings ''    return x;''))
        (split CHR 0x0A (''begin'' @ [CHR 0x0A] @ ''  return x;'' @ [CHR 0x0A] @ ''end'')) 1
   \<and> applyEdit (''begin'' @ [CHR 0x0A] @ ''  return x;'' @ [CHR 0x0A] @ ''end'')
        \<lparr>oldText = ''    return x;'', newText = [CHR 0x09] @ ''return y;''\<rparr>
       = Some (''begin'' @ [CHR 0x0A] @ ''  return y;'' @ [CHR 0x0A] @ ''end'')"
proof -
  let ?c = "''begin'' @ [CHR 0x0A] @ ''  return x;'' @ [CHR 0x0A] @ ''end''"
  let ?e = "\<lparr>oldText = ''    return x;'', newText = [CHR 0x09] @ ''return y;''\<rparr>"
  let ?r = "\<lambda>i. join CHR 0x0A
                  (take i (split CHR 0x0A ?c)
                   @ replacementLines (split CHR 0x0A (normalizeLineEndings (oldText ?e)))
                       (leadingWhitespace (split CHR 0x0A ?c ! i))
                       (normalizeLineEndings (newText ?e))
                   @ drop (i + length (split CHR 0x0A (normalizeLineEndings (oldText ?e))))
                       (split CHR 0x0A ?c))"
  have a: "\<not> includesStr ?c (normalizeLineEndings (oldText ?e))"
    by code_simp
  have b: "windowMatches (split CHR 0x0A (normalizeLineEndings (oldText ?e))) (split CHR 0x0A ?c) 1"
    by code_simp
  have z: "\<not> windowMatches (split CHR 0x0A (normalizeLineEndings (oldText ?e))) (split CHR 0x0A ?c) 0"
    by code_simp
  from fuzzy_replaces_first_window [OF a b]
  obtain i where i: "i \<le> 1"
      "windowMatches (split CHR 0x0A (normalizeLineEndings (oldText ?e))) (split CHR 0x0A ?c) i"
      "applyEdit ?c ?e = Some (?r i)"
    by blast
  from i(1,2) z have i1: "i = 1"
    by (cases "i = 0") auto
  have ev: "?r 1 = ''begin'' @ [CHR 0x0A] @ ''  return y;'' @ [CHR 0x0A] @ ''end''"
    by code_simp
  from i(3) have "applyEdit ?c ?e = Some (''begin'' @ [CHR 0x0A] @ ''  return y;'' @ [CHR 0x0A] @ ''end'')"
    unfolding i1 ev .
  moreover from a have "\<not> includesStr ?c (normalizeLineEndings ''    return x;'')" by simp
  moreover from b have "windowMatches (split CHR 0x0A (normalizeLineEndings ''    return x;''))
        (split CHR 0x0A ?c) 1" by simp
  ultimately show ?thesis by blast
qed

subsection \<open>Failing edits and the file on disk\<close>

lemma applyFileEdits_Some:
  "fs filePath = Some raw \<Longrightarrow>
   applyFileEdits patch fs filePath edits dryRun =
     (case applyEdits (normalizeLineEndings raw) edits of
        Inl err \<Rightarrow> (fs, Inl err)
      | Inr final \<Rightarrow>
          (if dryRun then fs else fs(filePath \<mapsto> final),
           Inr (formatDiff (createUnifiedDiff patch (normalizeLineEndings raw) final filePath))))"
  by (simp add: applyFileEdits_def Let_def split: sum.splits)

lemma applyFileEdits_None:
  "fs filePath = None \<Longrightarrow> applyFileEdits patch fs filePath edits dryRun = (fs, Inl FsError)"
  by (simp add: applyFileEdits_def)

text \<open>
  C7.  For a file that can be read, \<open>applyFileEdits\<close> fails with \<open>EditNotFound t\<close> exactly
  when the list holds an edit that, the edits before it applied, matches the content
  they leave neither exactly nor fuzzily, and \<open>t\<close> is the old text of that edit as given.
  When the first edit is the one that fails, the files are as they were.
\<close>

theorem editNotFound_iff:
  assumes "fs filePath = Some raw"
  shows "(snd (applyFileEdits patch fs filePath edits dryRun) = Inl (EditNotFound t) \<longleftrightarrow>
            (\<exists>pre e post c. edits = pre @ e # post
               \<and> applyEdits (normalizeLineEndings raw) pre = Inr c
               \<and> \<not> matchesExactly c e \<and> \<not> matchesFuzzily c e \<and> t = oldText e))
         \<and> (\<not> matchesExactly (normalizeLineEndings raw) e0 \<and> \<not> matchesFuzzily (normalizeLineEndings raw) e0
              \<longrightarrow> applyFileEdits patch fs filePath (e0 # rest) dryRun
                    = (fs, Inl (EditNotFound (oldText e0))))"
proof
  have "snd (applyFileEdits patch fs filePath edits dryRun) = Inl (EditNotFound t)
          \<longleftrightarrow> applyEdits (normalizeLineEndings raw) edits = Inl (EditNotFound t)"
    using assms by (simp add: applyFileEdits_Some split: sum.splits)
  also have "\<dots> \<longleftrightarrow> (\<exists>pre e post c. edits = pre @ e # post
               \<and> applyEdits (normalizeLineEndings raw) pre = Inr c
               \<and> applyEdit c e = None \<and> EditNotFound t = EditNotFound (oldText e))"
    by (rule applyEdits_Inl_iff)
  finally show "snd (applyFileEdits patch fs filePath edits dryRun) = Inl (EditNotFound t) \<longleftrightarrow>
            (\<exists>pre e post c. edits = pre @ e # post
               \<and> applyEdits (normalizeLineEndings raw) pre = Inr c
               \<and> \<not> matchesExactly c e \<and> \<not> matchesFuzzily c e \<and> t = oldText e)"
    by (simp add: applyEdit_None_iff)
next
  show "\<not> matchesExactly (normalizeLineEndings raw) e0 \<and> \<not> matchesFuzzily (normalizeLineEndings raw) e0
              \<longrightarrow> applyFileEdits patch fs filePath (e0 # rest) dryRun
                    = (fs, Inl (EditNotFound (oldText e0)))"
  proof
    assume "\<not> matchesExactly (normalizeLineEndings raw) e0 \<and> \<not> matchesFuzzily (normalizeLineEndings raw) e0"
    then have "applyEdit (normalizeLineEndings raw) e0 = None"
      by (simp add: applyEdit_None_iff)
    with assms show "applyFileEdits patch fs filePath (e0 # rest) dryRun
                    = (fs, Inl (EditNotFound (oldText e0)))"
      by (simp add: applyFileEdits_Some)
  qed
qed

theorem editNotFound_iff_witness:
  "exampleStore ''/allowed/f'' = Some ''  return x;''
   \<and> \<not> matchesExactly (normalizeLineEndings ''  return x;'') \<lparr>oldText = ''return z;'', newText = ''return y;''\<rparr>
   \<and> \<not> matchesFuzzily (normalizeLineEndings ''  return x;'') \<lparr>oldText = ''return z;'', newText = ''return y;''\<rparr>
   \<and> applyFileEdits examplePatch exampleStore ''/allowed/f''
        [\<lparr>oldText = ''return z;'', newText = ''return y;''\<rparr>] False
       = (exampleStore, Inl (EditNotFound ''return z;''))"
proof -
  have a: "exampleStore ''/allowed/f'' = Some ''  return x;''"
    by (simp add: exampleStore_def)
  have b: "\<not> matchesExactly (normalizeLineEndings ''  return x;'')
      \<lparr>oldText = ''return z;'', newText = ''return y;''\<rparr>"
    by code_simp
  have c: "\<not> matchesFuzzily (normalizeLineEndings ''  return x;'')
      \<lparr>oldText = ''return z;'', newText = ''return y;''\<rparr>"
    by code_simp
  from editNotFound_iff [where fs = exampleStore and filePath = "''/allowed/f''"
      and raw = "''  return x;''" and patch = examplePatch and dryRun = False
      and ?e0.0 = "\<lparr>oldText = ''return z;'', newText = ''return y;''\<rparr>" and rest = "[]"] a b c
  have "applyFileEdits examplePatch exampleStore ''/allowed/f''
        [\<lparr>oldText = ''return z;'', newText = ''return y;''\<rparr>] False
       = (exampleStore, Inl (EditNotFound ''return z;''))"
    by simp
  with a b c show ?thesis by simp
qed

lemma formatDiff_not_Nil: "formatDiff diff \<noteq> []"
  by (simp add: formatDiff_def Let_def)

lemma searchFrom_occurs: "searchFrom pat pre (a @ pat @ b) \<noteq> None"
proof (induction a arbitrary: pre)
  case Nil
  show ?case
    using startsWith_same [of pat b] by (cases "pat @ b") auto
next
  case (Cons x a)
  show ?case
  proof (cases "startsWith (x # a @ pat @ b) pat")
    case True
    then show ?thesis by simp
  next
    case False
    with Cons [of "x # pre"] show ?thesis by simp
  qed
qed

lemma includesStr_iff: "includesStr s pat \<longleftrightarrow> (\<exists>a b. s = a @ pat @ b)"
proof
  assume "includesStr s pat"
  then obtain a b where "searchFrom pat [] s = Some (a, b)"
    by (auto simp: includesStr_def)
  from searchFrom_split [OF this] show "\<exists>a b. s = a @ pat @ b" by auto
next
  assume "\<exists>a b. s = a @ pat @ b"
  then obtain a b where "s = a @ pat @ b" by blast
  then show "includesStr s pat"
    unfolding includesStr_def using searchFrom_occurs [of pat "[]" a b] by simp
qed

lemma countBackticks_spec:
  "k \<le> countBackticks diff k
   \<and> \<not> includesStr diff (replicate (countBackticks diff k) CHR 0x60)
   \<and> (\<forall>m. k \<le> m \<and> m < countBackticks diff k \<longrightarrow> includesStr diff (replicate m CHR 0x60))"
proof (induction diff k rule: countBackticks.induct)
  case (1 diff k)
  show ?case
  proof (cases "includesStr diff (replicate k CHR 0x60)")
    case True
    then have eq: "countBackticks diff k = countBackticks diff (k + 1)"
      by (subst countBackticks.simps) simp
    from "1.IH" [OF True] have ih: "k + 1 \<le> countBackticks diff (k + 1)"
      "\<not> includesStr diff (replicate (countBackticks diff (k + 1)) CHR 0x60)"
      "\<forall>m. k + 1 \<le> m \<and> m < countBackticks diff (k + 1) \<longrightarrow> includesStr diff (replicate m CHR 0x60)"
      by blast+
    have "\<forall>m. k \<le> m \<and> m < countBackticks diff (k + 1) \<longrightarrow> includesStr diff (replicate m CHR 0x60)"
    proof (intro allI impI)
      fix m assume m: "k \<le> m \<and> m < countBackticks diff (k + 1)"
      show "includesStr diff (replicate m CHR 0x60)"
      proof (cases "m = k")
        case True
        with \<open>includesStr diff (replicate k CHR 0x60)\<close> show ?thesis by simp
      next
        case False
        with m have "k + 1 \<le> m \<and> m < countBackticks diff (k + 1)" by simp
        with ih(3) show ?thesis by blast
      qed
    qed
    with ih(1,2) show ?thesis unfolding eq by simp
  next
    case False
    then have "countBackticks diff k = k"
      by (subst countBackticks.simps) simp
    with False show ?thesis by auto
  qed
qed

text \<open>
  C8, as stated: with \<open>dryRun\<close> set, \<open>applyFileEdits\<close> returns the rendered diff for every
  file and every list of edits.  It fails for an edit that does not match: the call
  throws \<open>EditNotFound\<close> and returns no diff.
\<close>

theorem dryRun_returns_diff_counterexample:
  "exampleStore ''/allowed/f'' = Some ''  return x;''
   \<and> applyFileEdits examplePatch exampleStore ''/allowed/f''
        [\<lparr>oldText = ''return z;'', newText = ''return y;''\<rparr>] True
       = (exampleStore, Inl (EditNotFound ''return z;''))"
proof -
  have a: "exampleStore ''/allowed/f'' = Some ''  return x;''"
    by (simp add: exampleStore_def)
  have "applyEdits (normalizeLineEndings ''  return x;'')
      [\<lparr>oldText = ''return z;'', newText = ''return y;''\<rparr>] = Inl (EditNotFound ''return z;'')"
    by code_simp
  with a show ?thesis by (simp add: applyFileEdits_Some del: applyEdits.simps)
qed

text \<open>
  C8, amended.  With \<open>dryRun\<close> set the files are left as they were, whatever the edits.
  When the file can be read and the edits all match, the result is the rendered diff,
  with \<open>dryRun\<close> set or not: the patch of the content read against the final content,
  under the headers \<open>original\<close> and \<open>modified\<close>, between two fences of the same number of
  backticks, three or more, the least number such that the fence does not occur in the
  patch; the opening fence is followed by \<open>diff\<close> and a line feed, the closing one by
  two line feeds.  The final content is stored under the path when \<open>dryRun\<close> is not set,
  and the files change only then.
\<close>

theorem dryRun_leaves_store:
  "fst (applyFileEdits patch fs filePath edits True) = fs
   \<and> (fs filePath = Some raw \<and> applyEdits (normalizeLineEndings raw) edits = Inr final \<longrightarrow>
        (\<exists>n\<ge>3.
            (\<forall>a b. patch filePath filePath (normalizeLineEndings (normalizeLineEndings raw))
                     (normalizeLineEndings final) ''original'' ''modified''
                   \<noteq> a @ replicate n CHR 0x60 @ b)
          \<and> (\<forall>m. 3 \<le> m \<and> m < n \<longrightarrow>
                (\<exists>a b. patch filePath filePath (normalizeLineEndings (normalizeLineEndings raw))
                          (normalizeLineEndings final) ''original'' ''modified''
                        = a @ replicate m CHR 0x60 @ b))
          \<and> applyFileEdits patch fs filePath edits True
              = (fs, Inr (replicate n CHR 0x60 @ ''diff'' @ [CHR 0x0A]
                          @ patch filePath filePath (normalizeLineEndings (normalizeLineEndings raw))
                              (normalizeLineEndings final) ''original'' ''modified''
                          @ replicate n CHR 0x60 @ [CHR 0x0A, CHR 0x0A]))
          \<and> applyFileEdits patch fs filePath edits False
              = (fs(filePath \<mapsto> final),
                 Inr (replicate n CHR 0x60 @ ''diff'' @ [CHR 0x0A]
                          @ patch filePath filePath (normalizeLineEndings (normalizeLineEndings raw))
                              (normalizeLineEndings final) ''original'' ''modified''
                          @ replicate n CHR 0x60 @ [CHR 0x0A, CHR 0x0A]))))
   \<and> (fst (applyFileEdits patch fs filePath edits dryRun) \<noteq> fs \<longrightarrow> \<not> dryRun)"
proof (intro conjI impI)
  show frame: "fst (applyFileEdits patch fs filePath edits True) = fs"
    by (cases "fs filePath")
       (simp_all add: applyFileEdits_None applyFileEdits_Some split: sum.splits)
  show "\<not> dryRun" if "fst (applyFileEdits patch fs filePath edits dryRun) \<noteq> fs"
    using that frame by auto
next
  assume h: "fs filePath = Some raw \<and> applyEdits (normalizeLineEndings raw) edits = Inr final"
  define d where "d = patch filePath filePath (normalizeLineEndings (normalizeLineEndings raw))
                     (normalizeLineEndings final) ''original'' ''modified''"
  define n where "n = countBackticks d 3"
  have d: "createUnifiedDiff patch (normalizeLineEndings raw) final filePath = d"
    by (simp add: createUnifiedDiff_def d_def)
  have fmt: "formatDiff d = replicate n CHR 0x60 @ ''diff'' @ [CHR 0x0A] @ d
      @ replicate n CHR 0x60 @ [CHR 0x0A, CHR 0x0A]"
    by (simp add: formatDiff_def Let_def n_def)
  from countBackticks_spec [of 3 d] have n: "3 \<le> n" "\<not> includesStr d (replicate n CHR 0x60)"
      "\<forall>m. 3 \<le> m \<and> m < n \<longrightarrow> includesStr d (replicate m CHR 0x60)"
    by (simp_all add: n_def)
  from n(2) have absent: "\<forall>a b. d \<noteq> a @ replicate n CHR 0x60 @ b"
    by (simp add: includesStr_iff)
  from n(3) have present: "\<forall>m. 3 \<le> m \<and> m < n \<longrightarrow> (\<exists>a b. d = a @ replicate m CHR 0x60 @ b)"
    by (simp add: includesStr_iff)
  have t: "applyFileEdits patch fs filePath edits True
      = (fs, Inr (replicate n CHR 0x60 @ ''diff'' @ [CHR 0x0A] @ d
                  @ replicate n CHR 0x60 @ [CHR 0x0A, CHR 0x0A]))"
    using h by (simp add: applyFileEdits_Some d fmt)
  have f: "applyFileEdits patch fs filePath edits False
      = (fs(filePath \<mapsto> final), Inr (replicate n CHR 0x60 @ ''diff'' @ [CHR 0x0A] @ d
                  @ replicate n CHR 0x60 @ [CHR 0x0A, CHR 0x0A]))"
    using h by (simp add: applyFileEdits_Some d fmt)
  from n(1) absent present t f
  show "\<exists>n\<ge>3.
            (\<forall>a b. patch filePath filePath (normalizeLineEndings (normalizeLineEndings raw))
                     (normalizeLineEndings final) ''original'' ''modified''
                   \<noteq> a @ replicate n CHR 0x60 @ b)
          \<and> (\<forall>m. 3 \<le> m \<and> m < n \<longrightarrow>
                (\<exists>a b. patch filePath filePath (normalizeLineEndings (normalizeLineEndings raw))
                          (normalizeLineEndings final) ''original'' ''modified''
                        = a @ replicate m CHR 0x60 @ b))
          \<and> applyFileEdits patch fs filePath edits True
              = (fs, Inr (replicate n CHR 0x60 @ ''diff'' @ [CHR 0x0A]
                          @ patch filePath filePath (normalizeLineEndings (normalizeLineEndings raw))
                              (normalizeLineEndings final) ''original'' ''modified''
                          @ replicate n CHR 0x60 @ [CHR 0x0A, CHR 0x0A]))
          \<and> applyFileEdits patch fs filePath edits False
              = (fs(filePath \<mapsto> final),
                 Inr (replicate n CHR 0x60 @ ''diff'' @ [CHR 0x0A]
                          @ patch filePath filePath (normalizeLineEndings (normalizeLineEndings raw))
                              (normalizeLineEndings final) ''original'' ''modified''
                          @ replicate n CHR 0x60 @ [CHR 0x0A, CHR 0x0A]))"
    unfolding d_def [symmetric] by (intro exI [of _ n]) simp
qed

theorem dryRun_leaves_store_witness:
  "exampleStore ''/allowed/f'' = Some ''  return x;''
   \<and> applyEdits (normalizeLineEndings ''  return x;'') [\<lparr>oldText = ''return x;'', newText = ''return y;''\<rparr>]
       = Inr ''  return y;''
   \<and> applyFileEdits examplePatch exampleStore ''/allowed/f''
        [\<lparr>oldText = ''return x;'', newText = ''return y;''\<rparr>] True
       = (exampleStore,
          Inr (''```diff'' @ [CHR 0x0A]
               @ ''--- /allowed/f original'' @ [CHR 0x0A]
               @ ''+++ /allowed/f modified'' @ [CHR 0x0A]
               @ ''-  return x;'' @ [CHR 0x0A]
               @ ''+  return y;'' @ [CHR 0x0A]
               @ ''```'' @ [CHR 0x0A, CHR 0x0A]))
   \<and> applyFileEdits examplePatch exampleStore ''/allowed/f''
        [\<lparr>oldText = ''return x;'', newText = ''return y;''\<rparr>] False
       = (exampleStore(''/allowed/f'' \<mapsto> ''  return y;''),
          Inr (''```diff'' @ [CHR 0x0A]
               @ ''--- /allowed/f original'' @ [CHR 0x0A]
               @ ''+++ /allowed/f modified'' @ [CHR 0x0A]
               @ ''-  return x;'' @ [CHR 0x0A]
               @ ''+  return y;'' @ [CHR 0x0A]
               @ ''```'' @ [CHR 0x0A, CHR 0x0A]))"
proof -
  let ?d = "examplePatch ''/allowed/f'' ''/allowed/f''
      (normalizeLineEndings (normalizeLineEndings ''  return x;''))
      (normalizeLineEndings ''  return y;'') ''original'' ''modified''"
  have a: "exampleStore ''/allowed/f'' = Some ''  return x;''"
    by (simp add: exampleStore_def)
  have b: "applyEdits (normalizeLineEndings ''  return x;'')
      [\<lparr>oldText = ''return x;'', newText = ''return y;''\<rparr>] = Inr ''  return y;''"
    by code_simp
  have d: "?d = ''--- /allowed/f original'' @ [CHR 0x0A]
               @ ''+++ /allowed/f modified'' @ [CHR 0x0A]
               @ ''-  return x;'' @ [CHR 0x0A]
               @ ''+  return y;'' @ [CHR 0x0A]"
    by code_simp
  have no3: "\<not> includesStr ?d (replicate 3 CHR 0x60)"
    by code_simp
  from dryRun_leaves_store [of examplePatch exampleStore "''/allowed/f''"
      "[\<lparr>oldText = ''return x;'', newText = ''return y;''\<rparr>]" "''  return x;''" "''  return y;''"] a b
  obtain n where n: "3 \<le> n" "\<forall>m. 3 \<le> m \<and> m < n \<longrightarrow> (\<exists>a b. ?d = a @ replicate m CHR 0x60 @ b)"
      "applyFileEdits examplePatch exampleStore ''/allowed/f''
          [\<lparr>oldText = ''return x;'', newText = ''return y;''\<rparr>] True
        = (exampleStore, Inr (replicate n CHR 0x60 @ ''diff'' @ [CHR 0x0A] @ ?d
                          @ replicate n CHR 0x60 @ [CHR 0x0A, CHR 0x0A]))"
      "applyFileEdits examplePatch exampleStore ''/allowed/f''
          [\<lparr>oldText = ''return x;'', newText = ''return y;''\<rparr>] False
        = (exampleStore(''/allowed/f'' \<mapsto> ''  return y;''),
           Inr (replicate n CHR 0x60 @ ''diff'' @ [CHR 0x0A] @ ?d
                          @ replicate n CHR 0x60 @ [CHR 0x0A, CHR 0x0A]))"
    by blast
  have n3: "n = 3"
  proof (rule ccontr)
    assume "n \<noteq> 3"
    with n(1) have "3 \<le> (3::nat) \<and> 3 < n" by simp
    with n(2) have "\<exists>a b. ?d = a @ replicate 3 CHR 0x60 @ b" by blast
    then have "includesStr ?d (replicate 3 CHR 0x60)" by (simp only: includesStr_iff)
    with no3 show False by blast
  qed
  have fence: "replicate 3 CHR 0x60 = ''```''"
    by code_simp
  from n(3,4) a b show ?thesis
    unfolding n3 fence d by simp
qed

text \<open>
  C10.  Whenever \<open>applyFileEdits\<close> fails with \<open>EditNotFound\<close>, at whatever position of the
  list, the files are as they were; they change only when the file was read, every edit
  matched and \<open>dryRun\<close> is not set.
\<close>

theorem editNotFound_store_unchanged:
  "(snd (applyFileEdits patch fs filePath edits dryRun) = Inl (EditNotFound t)
      \<longrightarrow> fst (applyFileEdits patch fs filePath edits dryRun) = fs)
   \<and> (fst (applyFileEdits patch fs filePath edits dryRun) \<noteq> fs
      \<longrightarrow> (\<exists>raw final. fs filePath = Some raw
            \<and> applyEdits (normalizeLineEndings raw) edits = Inr final \<and> \<not> dryRun))"
proof (cases "fs filePath")
  case None
  then show ?thesis by (simp add: applyFileEdits_None)
next
  case (Some raw)
  then show ?thesis
    by (cases "applyEdits (normalizeLineEndings raw) edits") (auto simp: applyFileEdits_Some)
qed

theorem editNotFound_store_unchanged_witness:
  "applyEdits (normalizeLineEndings ''  return x;'') [\<lparr>oldText = ''return x;'', newText = ''return y;''\<rparr>]
       = Inr ''  return y;''
   \<and> snd (applyFileEdits examplePatch exampleStore ''/allowed/f''
        [\<lparr>oldText = ''return x;'', newText = ''return y;''\<rparr>,
         \<lparr>oldText = ''return x;'', newText = ''return z;''\<rparr>] False)
       = Inl (EditNotFound ''return x;'')
   \<and> fst (applyFileEdits examplePatch exampleStore ''/allowed/f''
        [\<lparr>oldText = ''return x;'', newText = ''return y;''\<rparr>,
         \<lparr>oldText = ''return x;'', newText = ''return z;''\<rparr>] False)
       = exampleStore"
proof -
  have a: "applyEdits (normalizeLineEndings ''  return x;'')
      [\<lparr>oldText = ''return x;'', newText = ''return y;''\<rparr>] = Inr ''  return y;''"
    by code_simp
  have c: "snd (applyFileEdits examplePatch exampleStore ''/allowed/f''
        [\<lparr>oldText = ''return x;'', newText = ''return y;''\<rparr>,
         \<lparr>oldText = ''return x;'', newText = ''return z;''\<rparr>] False)
       = Inl (EditNotFound ''return x;'')"
    by code_simp
  from editNotFound_store_unchanged [of examplePatch exampleStore "''/allowed/f''"
        "[\<lparr>oldText = ''return x;'', newText = ''return y;''\<rparr>,
         \<lparr>oldText = ''return x;'', newText = ''return z;''\<rparr>]" False "''return x;''"] c
  have "fst (applyFileEdits examplePatch exampleStore ''/allowed/f''
        [\<lparr>oldText = ''return x;'', newText = ''return y;''\<rparr>,
         \<lparr>oldText = ''return x;'', newText = ''return z;''\<rparr>] False)
       = exampleStore"
    by blast
  with a c show ?thesis by simp
qed

section \<open>Searching: results\<close>






end
